theory Spec2Isabelle
  imports Main
begin

section \<open>The Markov-chain writer bot and its hash table (writer\_bot.py)\<close>

text \<open>
  The program keeps a fixed-size open-addressing hash table whose slots are either
  \<open>None\<close> or a pair \<open>[key, [value, ...]]\<close>, fills it with the prefix/suffix
  pairs of a word list and then walks it to generate text.

  Conventions of the embedding:
  \<^item> Python's unbounded integers are \<open>int\<close>; a list index is an \<open>int\<close> and follows
    Python's rules (a negative index counts from the end, anything else out of range
    raises \<open>IndexError\<close>).
  \<^item> A Python string is a \<open>string\<close>, a list of the 256 characters of type \<open>char\<close>;
    \<open>ord\<close> is the code of the character.
  \<^item> A Python exception is a value \<open>Inl e\<close> of the sum type \<open>error + 'a\<close>.
  \<^item> A loop that may run forever is a \<^theory_text>\<open>partial_function\<close> in the option
    monad: the value \<open>None\<close> means that the call does not return.  A result therefore
    has the type \<open>(error + 'a) option\<close>.
  \<^item> Mutation of the table object is explicit state passing: an operation that mutates
    the table returns the new table.
  \<^item> The module-level random generator is a parameter: a function \<open>randint\<close> and a
    generator state that is threaded through the generation loop.
\<close>

subsection \<open>Python primitives used by the program\<close>

datatype error = ZeroDivisionError | IndexError | AttributeError | TypeError

type_synonym 'a result = "(error + 'a) option"

text \<open>\<open>xs[i]\<close>: an index in \<open>[-len, len)\<close> is accepted, every other one raises.\<close>

definition getitem :: "'a list \<Rightarrow> int \<Rightarrow> error + 'a" where
  "getitem xs i =
     (if 0 \<le> i \<and> i < int (length xs) then Inr (xs ! nat i)
      else if - int (length xs) \<le> i \<and> i < 0 then Inr (xs ! nat (int (length xs) + i))
      else Inl IndexError)"

text \<open>\<open>xs[i] = v\<close>, with the same index rules.\<close>

definition setitem :: "'a list \<Rightarrow> int \<Rightarrow> 'a \<Rightarrow> error + 'a list" where
  "setitem xs i v =
     (if 0 \<le> i \<and> i < int (length xs) then Inr (xs[nat i := v])
      else if - int (length xs) \<le> i \<and> i < 0 then Inr (xs[nat (int (length xs) + i) := v])
      else Inl IndexError)"

text \<open>\<open>xs.pop(0)\<close>, returning the list that remains; it raises on the empty list.\<close>

definition pop0 :: "'a list \<Rightarrow> error + 'a list" where
  "pop0 xs = (case xs of [] \<Rightarrow> Inl IndexError | _ # rest \<Rightarrow> Inr rest)"

text \<open>\<open>sep.join(xs)\<close>.\<close>

fun join :: "string \<Rightarrow> string list \<Rightarrow> string" where
  "join sep [] = []"
| "join sep [x] = x"
| "join sep (x # y # ys) = x @ sep @ join sep (y # ys)"

text \<open>\<open>ord(c)\<close>: the code point of a character.\<close>

definition ord :: "char \<Rightarrow> int" where
  "ord c = of_char c"

definition NONWORD :: string where
  "NONWORD = ''@''"

subsection \<open>class Hashtable\<close>

type_synonym slot = "(string \<times> string list) option"

text \<open>The attributes \<open>_pairs\<close> and \<open>_size\<close> of the class.\<close>

record hashtable =
  pairs :: "slot list"
  tsize :: int

text \<open>\<open>__init__\<close>: \<open>[None] * size\<close> is the empty list when the size \<open>sz\<close> is not positive.\<close>

definition Hashtable :: "int \<Rightarrow> hashtable" where
  "Hashtable sz = \<lparr>pairs = replicate (nat sz) None, tsize = sz\<rparr>"

text \<open>The loop of \<open>_hash\<close>: \<open>for c in key: p = 31 * p + ord(c)\<close>.\<close>

fun hash_loop :: "int \<Rightarrow> string \<Rightarrow> int" where
  "hash_loop p [] = p"
| "hash_loop p (c # cs) = hash_loop (31 * p + ord c) cs"

text \<open>\<open>_hash\<close>: \<open>p % self._size\<close> raises when the size is zero; for a non-zero size
  Python's \<open>%\<close> takes the sign of the divisor, as \<open>mod\<close> on \<open>int\<close> does.\<close>

definition hash :: "hashtable \<Rightarrow> string \<Rightarrow> error + int" where
  "hash t key =
     (let p = hash_loop 0 key
      in if tsize t = 0 then Inl ZeroDivisionError else Inr (p mod tsize t))"

text \<open>The \<open>while True\<close> loop of \<open>put\<close>, entered with the index of an occupied slot:
  step down, wrap below zero to \<open>len(self._pairs) - 1\<close>, leave at the first empty slot.
  The loop has no other exit.\<close>

partial_function (option) put_loop :: "slot list \<Rightarrow> int \<Rightarrow> int result" where
  "put_loop ps i =
     (let i1 = i - 1;
          i2 = (if i1 < 0 then int (length ps) - 1 else i1)
      in case getitem ps i2 of
           Inl e \<Rightarrow> Some (Inl e)
         | Inr None \<Rightarrow> Some (Inr i2)
         | Inr (Some kv) \<Rightarrow> put_loop ps i2)"

declare put_loop.simps [code]

text \<open>\<open>put\<close>: the slot found is overwritten with \<open>[key, [value]]\<close>.\<close>

definition put :: "hashtable \<Rightarrow> string \<Rightarrow> string \<Rightarrow> hashtable result" where
  "put t key v =
     (case hash t key of
        Inl e \<Rightarrow> Some (Inl e)
      | Inr i \<Rightarrow>
         (case getitem (pairs t) i of
            Inl e \<Rightarrow> Some (Inl e)
          | Inr s \<Rightarrow>
             (case (if s \<noteq> None then put_loop (pairs t) i else Some (Inr i)) of
                None \<Rightarrow> None
              | Some (Inl e) \<Rightarrow> Some (Inl e)
              | Some (Inr j) \<Rightarrow>
                 (case setitem (pairs t) j (Some (key, [v])) of
                    Inl e \<Rightarrow> Some (Inl e)
                  | Inr ps \<Rightarrow> Some (Inr (t\<lparr>pairs := ps\<rparr>))))))"

text \<open>The \<open>while\<close> loop of \<open>get\<close>.  The list it returns is the object stored in the
  slot, so the model returns the index of the slot together with the list.  The last
  argument counts the slots the loop has inspected; it is a ghost counter that the
  source does not have and that no branch reads.\<close>

partial_function (option) get_loop ::
  "slot list \<Rightarrow> int \<Rightarrow> string \<Rightarrow> int \<Rightarrow> int \<Rightarrow> nat \<Rightarrow> ((int \<times> string list) option \<times> nat) result"
where
  "get_loop ps sz key start i n =
     (case getitem ps i of
        Inl e \<Rightarrow> Some (Inl e)
      | Inr None \<Rightarrow> Some (Inr (None, Suc n))
      | Inr (Some (k, vs)) \<Rightarrow>
          if k = key then Some (Inr (Some (i, vs), Suc n))
          else if sz = 0 then Some (Inl ZeroDivisionError)
          else let i' = (i - 1) mod sz
               in if i' = start then Some (Inr (None, Suc n))
                  else get_loop ps sz key start i' (Suc n))"

declare get_loop.simps [code]

text \<open>\<open>get\<close> with the slot index and the number of probes kept.\<close>

definition get_probes :: "hashtable \<Rightarrow> string \<Rightarrow> ((int \<times> string list) option \<times> nat) result" where
  "get_probes t key =
     (case hash t key of
        Inl e \<Rightarrow> Some (Inl e)
      | Inr i \<Rightarrow> get_loop (pairs t) (tsize t) key i i 0)"

text \<open>\<open>get\<close>: the value list of the key, or \<open>None\<close>.\<close>

definition get :: "hashtable \<Rightarrow> string \<Rightarrow> string list option result" where
  "get t key =
     (case get_probes t key of
        None \<Rightarrow> None
      | Some (Inl e) \<Rightarrow> Some (Inl e)
      | Some (Inr (r, n)) \<Rightarrow> Some (Inr (map_option snd r)))"

text \<open>\<open>__contains__\<close>.\<close>

definition contains :: "hashtable \<Rightarrow> string \<Rightarrow> bool result" where
  "contains t key =
     (case get t key of
        None \<Rightarrow> None
      | Some (Inl e) \<Rightarrow> Some (Inl e)
      | Some (Inr r) \<Rightarrow> Some (Inr (if r = None then False else True)))"

text \<open>\<open>table.get(key).append(word)\<close>: the list returned by \<open>get\<close> is the one held by
  the slot, so appending to it changes that slot; on \<open>None\<close> the attribute lookup
  raises.\<close>

definition get_append :: "hashtable \<Rightarrow> string \<Rightarrow> string \<Rightarrow> hashtable result" where
  "get_append t key word =
     (case get_probes t key of
        None \<Rightarrow> None
      | Some (Inl e) \<Rightarrow> Some (Inl e)
      | Some (Inr (None, n)) \<Rightarrow> Some (Inl AttributeError)
      | Some (Inr (Some (i, vs), n)) \<Rightarrow>
         (case setitem (pairs t) i (Some (key, vs @ [word])) of
            Inl e \<Rightarrow> Some (Inl e)
          | Inr ps \<Rightarrow> Some (Inr (t\<lparr>pairs := ps\<rparr>))))"

subsection \<open>Building the table and generating text\<close>

text \<open>The \<open>for word in contents\<close> loop of \<open>build_prefix_suffix_table\<close>.\<close>

fun build_loop :: "hashtable \<Rightarrow> string list \<Rightarrow> string list \<Rightarrow> hashtable result" where
  "build_loop table prefix [] = Some (Inr table)"
| "build_loop table prefix (word # contents) =
     (let prefix_str = join '' '' prefix
      in case contains table prefix_str of
           None \<Rightarrow> None
         | Some (Inl e) \<Rightarrow> Some (Inl e)
         | Some (Inr present) \<Rightarrow>
            (case (if present then get_append table prefix_str word
                   else put table prefix_str word) of
               None \<Rightarrow> None
             | Some (Inl e) \<Rightarrow> Some (Inl e)
             | Some (Inr table') \<Rightarrow>
                (case pop0 prefix of
                   Inl e \<Rightarrow> Some (Inl e)
                 | Inr rest \<Rightarrow> build_loop table' (rest @ [word]) contents)))"

definition build_prefix_suffix_table :: "string list \<Rightarrow> int \<Rightarrow> int \<Rightarrow> hashtable result" where
  "build_prefix_suffix_table contents n table_size =
     build_loop (Hashtable table_size) (replicate (nat n) NONWORD) contents"

text \<open>The choice of the next word in \<open>generate_text\<close>; \<open>randint s a b\<close> is the draw
  \<open>randint(a, b)\<close> in generator state \<open>s\<close> and returns the number with the next state.\<close>

definition pick_suffix ::
  "('r \<Rightarrow> int \<Rightarrow> int \<Rightarrow> int \<times> 'r) \<Rightarrow> 'r \<Rightarrow> string list \<Rightarrow> error + (string \<times> 'r)" where
  "pick_suffix randint s suffixes =
     (if length suffixes > 1 then
        (case randint s 0 (int (length suffixes) - 1) of
           (i, s') \<Rightarrow>
             (case getitem suffixes i of
                Inl e \<Rightarrow> Inl e
              | Inr right_word \<Rightarrow> Inr (right_word, s')))
      else
        (case getitem suffixes 0 of
           Inl e \<Rightarrow> Inl e
         | Inr right_word \<Rightarrow> Inr (right_word, s)))"

text \<open>The \<open>while\<close> loop of \<open>generate_text\<close>.  The membership test comes first in the
  condition, and the body looks the key up a second time.\<close>

function generate_loop ::
  "('r \<Rightarrow> int \<Rightarrow> int \<Rightarrow> int \<times> 'r) \<Rightarrow> hashtable \<Rightarrow> int \<Rightarrow> 'r \<Rightarrow> string list \<Rightarrow> string list
     \<Rightarrow> string list result"
where
  "generate_loop randint table word_count s tlist prefix =
     (case contains table (join '' '' prefix) of
        None \<Rightarrow> None
      | Some (Inl e) \<Rightarrow> Some (Inl e)
      | Some (Inr present) \<Rightarrow>
          if present \<and> int (length tlist) < word_count then
            (case get table (join '' '' prefix) of
               None \<Rightarrow> None
             | Some (Inl e) \<Rightarrow> Some (Inl e)
             | Some (Inr None) \<Rightarrow> Some (Inl TypeError)
             | Some (Inr (Some suffixes)) \<Rightarrow>
                (case pick_suffix randint s suffixes of
                   Inl e \<Rightarrow> Some (Inl e)
                 | Inr (right_word, s') \<Rightarrow>
                    (case pop0 prefix of
                       Inl e \<Rightarrow> Some (Inl e)
                     | Inr rest \<Rightarrow>
                         generate_loop randint table word_count s'
                           (tlist @ [right_word]) (rest @ [right_word]))))
          else Some (Inr tlist))"
  by pat_completeness auto
termination
  by (relation "measure (\<lambda>(randint, table, word_count, s, tlist, prefix).
                   nat (word_count - int (length tlist)))") auto

definition generate_text ::
  "('r \<Rightarrow> int \<Rightarrow> int \<Rightarrow> int \<times> 'r) \<Rightarrow> 'r \<Rightarrow> hashtable \<Rightarrow> int \<Rightarrow> int \<Rightarrow> string list result" where
  "generate_text randint s table n word_count =
     generate_loop randint table word_count s [] (replicate (nat n) NONWORD)"

subsection \<open>The main program\<close>

text \<open>The output loop of \<open>main\<close>: one line for every ten words.\<close>

function print_loop :: "string list \<Rightarrow> string list" where
  "print_loop text_generated =
     (if text_generated = [] then []
      else join '' '' (take 10 text_generated) # print_loop (drop 10 text_generated))"
  by pat_completeness auto

termination
  by (relation "measure length") auto

text \<open>What a run of \<open>main\<close> that raises nothing does: it prints an error message and
  exits, or it prints the lines of the generated text.\<close>

datatype outcome = Exited string | Printed "string list"

text \<open>\<open>main\<close>, as a function of the words of the input file, the three numbers read
  and the random generator.  The two checks come before the file is read.\<close>

definition main ::
  "('r \<Rightarrow> int \<Rightarrow> int \<Rightarrow> int \<times> 'r) \<Rightarrow> 'r \<Rightarrow> string list \<Rightarrow> int \<Rightarrow> int \<Rightarrow> int \<Rightarrow> outcome result" where
  "main randint s contents table_size prefix_size word_count =
     (if prefix_size < 1 then
        Some (Inr (Exited ''ERROR: specified prefix size is less than one''))
      else if word_count < 1 then
        Some (Inr (Exited ''ERROR: specified size of the generated text is less than one''))
      else
        (case build_prefix_suffix_table contents prefix_size table_size of
           None \<Rightarrow> None
         | Some (Inl e) \<Rightarrow> Some (Inl e)
         | Some (Inr table) \<Rightarrow>
            (case generate_text randint s table prefix_size word_count of
               None \<Rightarrow> None
             | Some (Inl e) \<Rightarrow> Some (Inl e)
             | Some (Inr text_generated) \<Rightarrow> Some (Inr (Printed (print_loop text_generated))))))"

subsection \<open>Well-formed tables and the probe order\<close>

text \<open>A table as \<open>Hashtable(size)\<close> makes it for a positive size, and as every
  method keeps it: \<open>_size\<close> is positive and is the length of \<open>_pairs\<close>.\<close>

definition well_formed :: "hashtable \<Rightarrow> bool" where
  "well_formed t \<longleftrightarrow> 0 < tsize t \<and> int (length (pairs t)) = tsize t"

text \<open>The probe order: the \<open>d\<close>-th slot visited from home index \<open>h\<close> in a table
  of \<open>m\<close> slots, stepping down and wrapping below zero.\<close>

definition probe :: "int \<Rightarrow> int \<Rightarrow> nat \<Rightarrow> int" where
  "probe m h d = (h - int d) mod m"

text \<open>What a run of the lookup loop that made the probes \<open>d, \<dots>, c - 1\<close> of the probe
  order has seen when it returns \<open>r\<close>: every probe before the last hit an occupied
  slot with another key, and the last probe either hit the key (then \<open>r\<close> is that slot
  and its value list), or hit an empty slot, or was the last slot of the table, after
  which the index is back at its start (then \<open>r\<close> is \<open>None\<close>).\<close>

definition probed ::
  "slot list \<Rightarrow> int \<Rightarrow> int \<Rightarrow> string \<Rightarrow> nat \<Rightarrow> nat \<Rightarrow> (int \<times> string list) option \<Rightarrow> bool" where
  "probed ps m h key d c r \<longleftrightarrow>
     d < c \<and> c \<le> nat m \<and>
     (\<forall>e. d \<le> e \<and> e < c - 1 \<longrightarrow> (\<exists>k vs. ps ! nat (probe m h e) = Some (k, vs) \<and> k \<noteq> key)) \<and>
     (case r of
        Some (i, vs) \<Rightarrow> i = probe m h (c - 1) \<and> ps ! nat i = Some (key, vs)
      | None \<Rightarrow> ps ! nat (probe m h (c - 1)) = None \<or>
                (c = nat m \<and> (\<exists>k vs. ps ! nat (probe m h (c - 1)) = Some (k, vs) \<and> k \<noteq> key)))"

subsection \<open>The table as a finite map, and its invariant\<close>

text \<open>The pairs held by the occupied slots, in slot order.\<close>

fun occupied :: "slot list \<Rightarrow> (string \<times> string list) list" where
  "occupied [] = []"
| "occupied (None # ps) = occupied ps"
| "occupied (Some kv # ps) = kv # occupied ps"

text \<open>The map from keys to value lists that the table represents.\<close>

definition entries :: "hashtable \<Rightarrow> string \<Rightarrow> string list option" where
  "entries t = map_of (occupied (pairs t))"

text \<open>The home index of a key in a table of \<open>m\<close> slots.\<close>

definition home :: "int \<Rightarrow> string \<Rightarrow> int" where
  "home m key = hash_loop 0 key mod m"

text \<open>Linear probing keeps every slot between the home index of a stored key and the
  slot that holds it occupied; lookups rely on it.\<close>

definition paths_filled :: "int \<Rightarrow> slot list \<Rightarrow> bool" where
  "paths_filled m ps \<longleftrightarrow>
     (\<forall>j<length ps. \<forall>k vs. ps ! j = Some (k, vs) \<longrightarrow>
        (\<forall>d. d \<le> nat ((home m k - int j) mod m) \<longrightarrow> ps ! nat (probe m (home m k) d) \<noteq> None))"

text \<open>The invariant of the table: well-formed, no key in two slots, probe paths filled.\<close>

definition table_inv :: "hashtable \<Rightarrow> bool" where
  "table_inv t \<longleftrightarrow>
     well_formed t \<and> distinct (map fst (occupied (pairs t))) \<and> paths_filled (tsize t) (pairs t)"

subsection \<open>Definitions that state the properties\<close>

text \<open>Horner's rule with multiplier 31 and accumulator starting at 0, over the code points
  of the key.\<close>

definition horner :: "string \<Rightarrow> int" where
  "horner key = foldl (\<lambda>acc c. 31 * acc + ord c) 0 key"

text \<open>Every stored value list has at least one element.\<close>

definition vals_nonempty :: "hashtable \<Rightarrow> bool" where
  "vals_nonempty t \<longleftrightarrow> (\<forall>s\<in>set (pairs t). \<forall>k vs. s = Some (k, vs) \<longrightarrow> vs \<noteq> [])"

text \<open>The calls \<open>table.put(k1, v1); \<dots>; table.put(kn, vn)\<close> made one after the other on
  one table, stopping at the first call that raises or does not return.  This is the
  scenario of the round-trip property, not a function of the source.\<close>

fun put_all :: "hashtable \<Rightarrow> (string \<times> string) list \<Rightarrow> hashtable result" where
  "put_all t [] = Some (Inr t)"
| "put_all t ((k, v) # kvs) =
     (case put t k v of
        None \<Rightarrow> None
      | Some (Inl e) \<Rightarrow> Some (Inl e)
      | Some (Inr t') \<Rightarrow> put_all t' kvs)"

text \<open>The contract of \<open>random.randint(a, b)\<close>: for \<open>a \<le> b\<close> the number drawn lies in
  \<open>[a, b]\<close>.\<close>

definition randint_ok :: "('r \<Rightarrow> int \<Rightarrow> int \<Rightarrow> int \<times> 'r) \<Rightarrow> bool" where
  "randint_ok randint \<longleftrightarrow>
     (\<forall>s a b. a \<le> b \<longrightarrow> a \<le> fst (randint s a b) \<and> fst (randint s a b) \<le> b)"

text \<open>A random source that always draws the lower bound.\<close>

definition lowest :: "unit \<Rightarrow> int \<Rightarrow> int \<Rightarrow> int \<times> unit" where
  "lowest s a b = (a, s)"

text \<open>Building the prefix/suffix table on a finite map instead of the hash table: for
  each word, the word is appended to the value list of the current prefix key, or
  becomes a new one-element list when the key is new; then the window slides.\<close>

fun build_map ::
  "(string \<rightharpoonup> string list) \<Rightarrow> string list \<Rightarrow> string list \<Rightarrow> (string \<rightharpoonup> string list)" where
  "build_map M prefix [] = M"
| "build_map M prefix (word # contents) =
     build_map
       (M(join '' '' prefix \<mapsto>
            (case M (join '' '' prefix) of None \<Rightarrow> [word] | Some vs \<Rightarrow> vs @ [word])))
       (tl prefix @ [word]) contents"

section \<open>Properties\<close>

subsection \<open>Index arithmetic of the probe order\<close>

lemma getitem_in_range: "0 \<le> i \<Longrightarrow> i < int (length xs) \<Longrightarrow> getitem xs i = Inr (xs ! nat i)"
  by (simp add: getitem_def)

lemma setitem_in_range: "0 \<le> i \<Longrightarrow> i < int (length xs) \<Longrightarrow> setitem xs i v = Inr (xs[nat i := v])"
  by (simp add: setitem_def)

lemma probe_range: "0 < m \<Longrightarrow> 0 \<le> probe m h d \<and> probe m h d < m"
  by (simp add: probe_def)

lemma probe_0: "0 \<le> h \<Longrightarrow> h < m \<Longrightarrow> probe m h 0 = h"
  by (simp add: probe_def)

lemma probe_Suc: "probe m (probe m h d) (Suc 0) = probe m h (Suc d)"
  unfolding probe_def by (simp add: mod_diff_left_eq algebra_simps)

lemma probe_step:
  assumes "0 \<le> i" "i < m"
  shows "(if i - 1 < 0 then m - 1 else i - 1) = probe m i (Suc 0)"
proof (cases "i = 0")
  case True
  with assms have "0 < m" by simp
  with True show ?thesis by (simp add: probe_def zmod_minus1)
next
  case False
  with assms show ?thesis by (simp add: probe_def)
qed

lemma probe_dist: "0 < m \<Longrightarrow> 0 \<le> j \<Longrightarrow> j < m \<Longrightarrow> probe m h (nat ((h - j) mod m)) = j"
  unfolding probe_def by (simp add: mod_diff_right_eq)

lemma probe_inj: 
  assumes "0 < m" "d < nat m" "e < nat m" "probe m h d = probe m h e"
  shows "d = e"
proof -
  have "(h - int d) mod m = (h - int e) mod m" using assms by (simp add: probe_def)
  then have "m dvd (h - int d) - (h - int e)" using mod_eq_dvd_iff by blast
  then have "m dvd int e - int d" by (simp add: algebra_simps)
  moreover have "\<bar>int e - int d\<bar> < m" using assms by linarith
  ultimately have "int e - int d = 0"
    using zdvd_not_zless[of "\<bar>int e - int d\<bar>" m] by (cases "int e - int d = 0") simp_all
  then show ?thesis by simp
qed

lemma probe_full: "0 < m \<Longrightarrow> 0 \<le> h \<Longrightarrow> h < m \<Longrightarrow> probe m h (nat m) = h"
  by (simp add: probe_def)

lemma probe_not_start:
  assumes "0 < m" "0 \<le> h" "h < m" "0 < d" "d < nat m" shows "probe m h d \<noteq> h"
proof
  assume "probe m h d = h"
  then have "probe m h d = probe m h 0" using assms by (simp add: probe_0)
  then have "d = 0" using probe_inj[of m d 0 h] assms by simp
  then show False using assms by simp
qed

subsection \<open>The loops of put and get\<close>

lemma probe_add: "probe m (probe m h a) b = probe m h (a + b)"
  unfolding probe_def by (simp add: mod_diff_left_eq algebra_simps)

lemma put_loop_unfold:
  assumes "0 \<le> i" "i < int (length ps)"
  shows "put_loop ps i =
           (case ps ! nat (probe (int (length ps)) i (Suc 0)) of
              None \<Rightarrow> Some (Inr (probe (int (length ps)) i (Suc 0)))
            | Some kv \<Rightarrow> put_loop ps (probe (int (length ps)) i (Suc 0)))"
proof -
  let ?j = "probe (int (length ps)) i (Suc 0)"
  have pos: "0 < int (length ps)" using assms by linarith
  have step: "(if i - 1 < 0 then int (length ps) - 1 else i - 1) = ?j"
    using assms by (intro probe_step)
  have rng: "0 \<le> ?j" "?j < int (length ps)"
    using probe_range[OF pos, of i "Suc 0"] by simp_all
  show ?thesis
    by (subst put_loop.simps) (simp only: Let_def step getitem_in_range[OF rng] sum.case)
qed

lemma put_loop_finds:
  assumes m: "0 < m" "m = int (length ps)"
  shows "0 \<le> i \<Longrightarrow> i < m \<Longrightarrow> ps ! nat (probe m i (Suc d)) = None \<Longrightarrow>
         (\<forall>e. 1 \<le> e \<and> e \<le> d \<longrightarrow> ps ! nat (probe m i e) \<noteq> None) \<Longrightarrow>
         put_loop ps i = Some (Inr (probe m i (Suc d)))"
proof (induction d arbitrary: i)
  case 0
  then show ?case
    using m by (subst put_loop_unfold) simp_all
next
  case (Suc d)
  let ?j = "probe m i (Suc 0)"
  have rng: "0 \<le> ?j \<and> ?j < m"
    using m by (intro probe_range)
  have occ: "ps ! nat ?j \<noteq> None" using Suc.prems(4) by simp
  have shift: "\<And>e. probe m ?j e = probe m i (Suc e)"
    using probe_add[of m i "Suc 0"] by simp
  have "put_loop ps ?j = Some (Inr (probe m ?j (Suc d)))"
  proof (rule Suc.IH)
    show "0 \<le> ?j" "?j < m" using rng m by simp_all
    show "ps ! nat (probe m ?j (Suc d)) = None" using Suc.prems(3) by (simp add: shift)
    show "\<forall>e. 1 \<le> e \<and> e \<le> d \<longrightarrow> ps ! nat (probe m ?j e) \<noteq> None"
      using Suc.prems(4) by (simp add: shift)
  qed
  then have rec: "put_loop ps ?j = Some (Inr (probe m i (Suc (Suc d))))" by (simp add: shift)
  from occ obtain kv where kv: "ps ! nat ?j = Some kv" by auto
  show ?case
    using Suc.prems(1,2) m kv rec by (subst put_loop_unfold) simp_all
qed

lemma put_loop_full:
  assumes ret: "put_loop ps i = Some y"
    and i: "0 \<le> i" "i < int (length ps)" and full: "\<forall>s\<in>set ps. s \<noteq> None"
  shows False
proof -
  have "\<not> (0 \<le> i \<and> i < int (length ps) \<and> (\<forall>s\<in>set ps. s \<noteq> None))"
  proof (rule put_loop.raw_induct[where
          P = "\<lambda>ps i y. \<not> (0 \<le> i \<and> i < int (length ps) \<and> (\<forall>s\<in>set ps. s \<noteq> None))",
          OF _ ret])
    fix f :: "slot list \<Rightarrow> int \<Rightarrow> int result" and ps i y
    assume IH: "\<And>ps i y. f ps i = Some y \<Longrightarrow>
                  \<not> (0 \<le> i \<and> i < int (length ps) \<and> (\<forall>s\<in>set ps. s \<noteq> None))"
      and eq: "(let i1 = i - 1; i2 = (if i1 < 0 then int (length ps) - 1 else i1)
                in case getitem ps i2 of
                     Inl e \<Rightarrow> Some (Inl e)
                   | Inr None \<Rightarrow> Some (Inr i2)
                   | Inr (Some kv) \<Rightarrow> f ps i2) = Some y"
    show "\<not> (0 \<le> i \<and> i < int (length ps) \<and> (\<forall>s\<in>set ps. s \<noteq> None))"
    proof
      assume a: "0 \<le> i \<and> i < int (length ps) \<and> (\<forall>s\<in>set ps. s \<noteq> None)"
      let ?j = "probe (int (length ps)) i (Suc 0)"
      have pos: "0 < int (length ps)" using a by linarith
      have step: "(if i - 1 < 0 then int (length ps) - 1 else i - 1) = ?j"
        using a by (intro probe_step) simp_all
      have rng: "0 \<le> ?j" "?j < int (length ps)"
        using probe_range[OF pos, of i "Suc 0"] by simp_all
      then have "nat ?j < length ps" by linarith
      then have "ps ! nat ?j \<in> set ps" by (rule nth_mem)
      then obtain kv where kv: "ps ! nat ?j = Some kv" using a by fastforce
      from eq have "f ps ?j = Some y"
        unfolding Let_def step getitem_in_range[OF rng] using kv by simp
      from IH[OF this] show False using rng a by simp
    qed
  qed
  then show False using i full by simp
qed

lemma get_loop_probed:
  assumes m: "0 < m" "m = int (length ps)" and h: "0 \<le> h" "h < m"
  shows "d < nat m \<Longrightarrow>
         \<exists>r c. get_loop ps m key h (probe m h d) n = Some (Inr (r, n + (c - d))) \<and>
               probed ps m h key d c r"
proof (induction "nat m - d" arbitrary: d n)
  case 0
  then show ?case by simp
next
  case (Suc x)
  let ?i = "probe m h d"
  have rng: "0 \<le> ?i \<and> ?i < int (length ps)" using probe_range[of m h d] m by simp
  have gi: "getitem ps ?i = Inr (ps ! nat ?i)" using rng by (simp add: getitem_in_range)
  have nxt: "(?i - 1) mod m = probe m h (Suc d)"
    using probe_Suc[of m h d] by (simp add: probe_def)
  show ?case
  proof (cases "ps ! nat ?i")
    case None
    have "get_loop ps m key h ?i n = Some (Inr (None, n + (Suc d - d)))"
      using None gi by (subst get_loop.simps) simp
    moreover have "probed ps m h key d (Suc d) None"
      using None Suc.prems by (auto simp: probed_def)
    ultimately show ?thesis by blast
  next
    case (Some kv)
    obtain k vs where kv: "kv = (k, vs)" by (cases kv)
    show ?thesis
    proof (cases "k = key")
      case True
      have "get_loop ps m key h ?i n = Some (Inr (Some (?i, vs), n + (Suc d - d)))"
        using Some kv True gi by (subst get_loop.simps) simp
      moreover have "probed ps m h key d (Suc d) (Some (?i, vs))"
        using Some kv True Suc.prems by (auto simp: probed_def)
      ultimately show ?thesis by blast
    next
      case False
      show ?thesis
      proof (cases "Suc d = nat m")
        case True
        then have "probe m h (Suc d) = h" using probe_full[of m h] m h by simp
        then have "get_loop ps m key h ?i n = Some (Inr (None, n + (Suc d - d)))"
          using Some kv False gi m nxt by (subst get_loop.simps) (simp add: Let_def)
        moreover have "probed ps m h key d (Suc d) None"
          using Some kv False True[symmetric] by (auto simp: probed_def)
        ultimately show ?thesis by blast
      next
        case nl: False
        then have lt: "Suc d < nat m" using Suc.prems by simp
        then have ns: "probe m h (Suc d) \<noteq> h" using probe_not_start[of m h "Suc d"] m h by simp
        have "x = nat m - Suc d" using Suc.hyps(2) by simp
        from Suc.hyps(1)[OF this lt, of "Suc n"] obtain r c where
          rc: "get_loop ps m key h (probe m h (Suc d)) (Suc n) = Some (Inr (r, Suc n + (c - Suc d)))"
              "probed ps m h key (Suc d) c r" by blast
        from rc(2) have c: "Suc d < c" by (simp add: probed_def)
        have "get_loop ps m key h ?i n = Some (Inr (r, n + (c - d)))"
          using Some kv False gi m nxt ns rc(1) c by (subst get_loop.simps) (simp add: Let_def)
        moreover have "probed ps m h key d c r"
        proof -
          have "\<exists>k vs. ps ! nat (probe m h e) = Some (k, vs) \<and> k \<noteq> key"
            if "d \<le> e \<and> e < c - 1" for e
          proof (cases "e = d")
            case True
            then show ?thesis using Some kv False by simp
          next
            case ne: False
            then have "Suc d \<le> e \<and> e < c - 1" using that by simp
            then show ?thesis using rc(2) by (simp add: probed_def)
          qed
          then show ?thesis using rc(2) by (simp add: probed_def)
        qed
        ultimately show ?thesis by blast
      qed
    qed
  qed
qed

subsection \<open>Occupied slots and the map they represent\<close>

lemma occupied_append: "occupied (xs @ ys) = occupied xs @ occupied ys"
  by (induction xs rule: occupied.induct) simp_all

lemma set_occupied: "set (occupied ps) = {kv. Some kv \<in> set ps}"
  by (induction ps rule: occupied.induct) auto

lemma length_occupied_le: "length (occupied ps) \<le> length ps"
  by (induction ps rule: occupied.induct) simp_all

lemma occupied_full: "length (occupied ps) = length ps \<Longrightarrow> None \<notin> set ps"
proof (induction ps rule: occupied.induct)
  case (2 ps)
  then show ?case using length_occupied_le[of ps] by simp
qed simp_all

lemma free_slot: 
  assumes "length (occupied ps) < length ps" shows "\<exists>j<length ps. ps ! j = None"
proof -
  have "None \<in> set ps"
  proof (rule ccontr)
    assume "None \<notin> set ps"
    then have "length (occupied ps) = length ps"
      by (induction ps rule: occupied.induct) simp_all
    with assms show False by simp
  qed
  then show ?thesis by (auto simp: in_set_conv_nth)
qed

lemma occupied_split_None:
  assumes "j < length ps" "ps ! j = None"
  shows "occupied ps = occupied (take j ps) @ occupied (drop (Suc j) ps)"
proof -
  have "ps = take j ps @ None # drop (Suc j) ps"
    using id_take_nth_drop[OF assms(1)] assms(2) by simp
  then have "occupied ps = occupied (take j ps @ None # drop (Suc j) ps)" by simp
  then show ?thesis by (simp add: occupied_append)
qed

lemma occupied_split_Some:
  assumes "j < length ps" "ps ! j = Some kv"
  shows "occupied ps = occupied (take j ps) @ kv # occupied (drop (Suc j) ps)"
proof -
  have "ps = take j ps @ Some kv # drop (Suc j) ps"
    using id_take_nth_drop[OF assms(1)] assms(2) by simp
  then have "occupied ps = occupied (take j ps @ Some kv # drop (Suc j) ps)" by simp
  then show ?thesis by (simp add: occupied_append)
qed

lemma occupied_update:
  assumes "j < length ps"
  shows "occupied (ps[j := Some kv]) = occupied (take j ps) @ kv # occupied (drop (Suc j) ps)"
  by (simp add: upd_conv_take_nth_drop[OF assms] occupied_append)

lemma map_of_insert_fresh:
  assumes "map_of (A @ B) k = None"
  shows "map_of (A @ (k, v) # B) = (map_of (A @ B))(k \<mapsto> v)"
  using assms by (auto simp: fun_eq_iff map_add_def split: option.splits)

lemma map_of_replace:
  assumes "k \<notin> fst ` set A"
  shows "map_of (A @ (k, v') # B) = (map_of (A @ (k, v) # B))(k \<mapsto> v')"
proof -
  have "map_of A k = None" using assms by (simp add: map_of_eq_None_iff)
  then show ?thesis by (auto simp: fun_eq_iff map_add_def split: option.splits)
qed

lemma probe_dist_inv:
  assumes "0 < m" "D < nat m" shows "nat ((h - probe m h D) mod m) = D"
proof -
  have "(h - probe m h D) mod m = (h - (h - int D)) mod m"
    unfolding probe_def by (simp add: mod_diff_right_eq)
  also have "\<dots> = int D mod m" by simp
  also have "\<dots> = int D" using assms by simp
  finally show ?thesis by simp
qed

lemma first_free_probe:
  assumes m: "0 < m" "m = int (length ps)" and h: "0 \<le> h" "h < m"
    and free: "\<exists>j<length ps. ps ! j = None"
  shows "\<exists>D. D < nat m \<and> ps ! nat (probe m h D) = None \<and>
             (\<forall>d<D. ps ! nat (probe m h d) \<noteq> None)"
proof -
  from free obtain j where j: "j < length ps" "ps ! j = None" by blast
  let ?D0 = "nat ((h - int j) mod m)"
  have "probe m h ?D0 = int j" using probe_dist[of m "int j" h] m j by simp
  then have ex: "ps ! nat (probe m h ?D0) = None" using j by simp
  define D where "D = (LEAST D. ps ! nat (probe m h D) = None)"
  have D1: "ps ! nat (probe m h D) = None" unfolding D_def using ex by (rule LeastI)
  have D2: "\<forall>d<D. ps ! nat (probe m h d) \<noteq> None"
    unfolding D_def using not_less_Least by blast
  have "D \<le> ?D0" unfolding D_def using ex by (rule Least_le)
  moreover have "?D0 < nat m" using m by (simp add: nat_less_iff)
  ultimately have "D < nat m" by linarith
  with D1 D2 show ?thesis by blast
qed

subsection \<open>put and get on a well-formed table\<close>

lemma hash_home: "well_formed t \<Longrightarrow> hash t key = Inr (home (tsize t) key)"
  by (simp add: hash_def home_def well_formed_def Let_def)

lemma home_range: "0 < m \<Longrightarrow> 0 \<le> home m key \<and> home m key < m"
  by (simp add: home_def)

lemma put_slot:
  assumes wf: "well_formed t" and free: "\<exists>j<length (pairs t). pairs t ! j = None"
  shows "\<exists>D. D < nat (tsize t) \<and>
             pairs t ! nat (probe (tsize t) (home (tsize t) key) D) = None \<and>
             (\<forall>d<D. pairs t ! nat (probe (tsize t) (home (tsize t) key) d) \<noteq> None) \<and>
             put t key v = Some (Inr (t\<lparr>pairs :=
               (pairs t)[nat (probe (tsize t) (home (tsize t) key) D) := Some (key, [v])]\<rparr>))"
proof -
  let ?m = "tsize t" and ?ps = "pairs t"
  let ?h = "home ?m key"
  have m: "0 < ?m" "?m = int (length ?ps)" using wf by (simp_all add: well_formed_def)
  have h: "0 \<le> ?h" "?h < ?m" using home_range[OF m(1), of key] by simp_all
  have hl: "?h < int (length ?ps)" using h m by simp
  from first_free_probe[OF m h free] obtain D where
    D: "D < nat ?m" "?ps ! nat (probe ?m ?h D) = None" "\<forall>d<D. ?ps ! nat (probe ?m ?h d) \<noteq> None"
    by blast
  let ?j = "probe ?m ?h D"
  have jr: "0 \<le> ?j" "?j < int (length ?ps)" using probe_range[OF m(1), of ?h D] m by simp_all
  have "put t key v = Some (Inr (t\<lparr>pairs := ?ps[nat ?j := Some (key, [v])]\<rparr>))"
  proof (cases D)
    case 0
    then have j: "?j = ?h" using probe_0[OF h] by simp
    then have "?ps ! nat ?h = None" using D(2) by simp
    then show ?thesis
      unfolding put_def hash_home[OF wf] j
      by (simp add: getitem_in_range[OF h(1) hl] setitem_in_range[OF h(1) hl])
  next
    case (Suc d)
    have "?ps ! nat (probe ?m ?h 0) \<noteq> None" using D(3) Suc by blast
    then have occ: "?ps ! nat ?h \<noteq> None" using probe_0[OF h] by simp
    have "put_loop ?ps ?h = Some (Inr (probe ?m ?h (Suc d)))"
    proof (rule put_loop_finds[OF m h])
      show "?ps ! nat (probe ?m ?h (Suc d)) = None" using D(2) Suc by simp
      show "\<forall>e. 1 \<le> e \<and> e \<le> d \<longrightarrow> ?ps ! nat (probe ?m ?h e) \<noteq> None"
        using D(3) Suc by simp
    qed
    then have "put_loop ?ps ?h = Some (Inr ?j)" using Suc by simp
    then show ?thesis
      unfolding put_def hash_home[OF wf] using occ
      by (simp add: getitem_in_range[OF h(1) hl] setitem_in_range[OF jr])
  qed
  with D show ?thesis by blast
qed

lemma get_probes_probed:
  assumes wf: "well_formed t"
  shows "\<exists>r c. get_probes t key = Some (Inr (r, c)) \<and>
               probed (pairs t) (tsize t) (home (tsize t) key) key 0 c r"
proof -
  let ?m = "tsize t" and ?ps = "pairs t"
  let ?h = "home ?m key"
  have m: "0 < ?m" "?m = int (length ?ps)" using wf by (simp_all add: well_formed_def)
  have h: "0 \<le> ?h" "?h < ?m" using home_range[OF m(1), of key] by simp_all
  have "0 < nat ?m" using m by simp
  from get_loop_probed[OF m h this, of key 0] show ?thesis
    unfolding get_probes_def hash_home[OF wf] using probe_0[OF h] by simp
qed

lemma inv_Hashtable: "0 < sz \<Longrightarrow> table_inv (Hashtable sz)"
proof -
  have "occupied (replicate n None) = []" for n by (induction n) simp_all
  moreover assume "0 < sz"
  ultimately show ?thesis
    by (simp add: table_inv_def Hashtable_def well_formed_def paths_filled_def)
qed

lemma entries_Hashtable: "entries (Hashtable sz) = Map.empty"
proof -
  have "occupied (replicate n None) = []" for n by (induction n) simp_all
  then show ?thesis by (simp add: entries_def Hashtable_def)
qed

lemma occupied_Hashtable: "occupied (pairs (Hashtable sz)) = []"
proof -
  have "occupied (replicate n None) = []" for n by (induction n) simp_all
  then show ?thesis by (simp add: Hashtable_def)
qed

subsection \<open>The invariant is kept, and get reads the represented map\<close>

lemma update_keeps_occupied:
  "ps ! x \<noteq> None \<Longrightarrow> x < length ps \<Longrightarrow> ps[j := Some kv] ! x \<noteq> None"
  by (cases "x = j") simp_all

lemma inv_put:
  assumes inv: "table_inv t" and fresh: "entries t key = None"
    and D: "D < nat (tsize t)"
           "pairs t ! nat (probe (tsize t) (home (tsize t) key) D) = None"
           "\<forall>d<D. pairs t ! nat (probe (tsize t) (home (tsize t) key) d) \<noteq> None"
    and t': "t' = t\<lparr>pairs := (pairs t)[nat (probe (tsize t) (home (tsize t) key) D) := Some (key, [v])]\<rparr>"
  shows "table_inv t' \<and> entries t' = (entries t)(key \<mapsto> [v]) \<and>
         length (occupied (pairs t')) = Suc (length (occupied (pairs t)))"
proof -
  let ?m = "tsize t" and ?ps = "pairs t"
  let ?h = "home ?m key"
  let ?j = "nat (probe ?m ?h D)"
  let ?ps' = "?ps[?j := Some (key, [v])]"
  have wf: "well_formed t" and dist: "distinct (map fst (occupied ?ps))"
    and paths: "paths_filled ?m ?ps" using inv by (simp_all add: table_inv_def)
  have m: "0 < ?m" "?m = int (length ?ps)" using wf by (simp_all add: well_formed_def)
  have pr: "nat (probe ?m h' d) < length ?ps" for h' d
    using probe_range[OF m(1), of h' d] m(2) by linarith
  have j: "?j < length ?ps" by (rule pr)
  let ?A = "occupied (take ?j ?ps)" and ?B = "occupied (drop (Suc ?j) ?ps)"
  have occ: "occupied ?ps = ?A @ ?B" using occupied_split_None[OF j D(2)] .
  have occ': "occupied ?ps' = ?A @ (key, [v]) # ?B" using occupied_update[OF j] .
  have none: "map_of (?A @ ?B) key = None" using fresh occ by (simp add: entries_def)
  then have notin: "key \<notin> fst ` set (?A @ ?B)" by (auto simp: map_of_eq_None_iff)
  have dist': "distinct (map fst (occupied ?ps'))"
    using dist notin unfolding occ occ' by auto
  have ent: "entries t' = (entries t)(key \<mapsto> [v])"
    unfolding entries_def t' using map_of_insert_fresh[OF none] by (simp add: occ occ')
  have len: "length (occupied (pairs t')) = Suc (length (occupied ?ps))"
    unfolding t' by (simp add: occ occ')
  have paths': "paths_filled ?m ?ps'"
    unfolding paths_filled_def
  proof (intro allI impI)
    fix i k vs d
    assume i: "i < length ?ps'" and slot: "?ps' ! i = Some (k, vs)"
      and d: "d \<le> nat ((home ?m k - int i) mod ?m)"
    show "?ps' ! nat (probe ?m (home ?m k) d) \<noteq> None"
    proof (cases "i = ?j")
      case True
      then have k: "k = key" using slot j by simp
      have "int ?j = probe ?m ?h D" using probe_range[OF m(1), of ?h D] by simp
      then have "nat ((?h - int ?j) mod ?m) = D" using probe_dist_inv[OF m(1) D(1), of ?h] by simp
      then have dD: "d \<le> D" using d True k by simp
      show ?thesis
      proof (cases "d = D")
        case True
        then show ?thesis using j k by simp
      next
        case False
        then have "d < D" using dD by simp
        then have "?ps ! nat (probe ?m ?h d) \<noteq> None" using D(3) by blast
        then show ?thesis unfolding k using pr by (rule update_keeps_occupied)
      qed
    next
      case False
      then have "?ps ! i = Some (k, vs)" using slot by simp
      moreover have "i < length ?ps" using i by simp
      ultimately have "?ps ! nat (probe ?m (home ?m k) d) \<noteq> None"
        using paths d unfolding paths_filled_def by blast
      then show ?thesis using pr by (rule update_keeps_occupied)
    qed
  qed
  have "well_formed t'" using wf by (simp add: well_formed_def t')
  then have "table_inv t'" using dist' paths' by (simp add: table_inv_def t')
  then show ?thesis using ent len by simp
qed

lemma get_probes_inv:
  assumes inv: "table_inv t"
  shows "\<exists>r c. get_probes t key = Some (Inr (r, c)) \<and> c \<le> nat (tsize t) \<and>
           (case r of
              None \<Rightarrow> entries t key = None
            | Some (i, vs) \<Rightarrow> entries t key = Some vs \<and> 0 \<le> i \<and> i < tsize t \<and>
                              pairs t ! nat i = Some (key, vs))"
proof -
  let ?m = "tsize t" and ?ps = "pairs t"
  let ?h = "home ?m key"
  have wf: "well_formed t" and dist: "distinct (map fst (occupied ?ps))"
    and paths: "paths_filled ?m ?ps" using inv by (simp_all add: table_inv_def)
  have m: "0 < ?m" "?m = int (length ?ps)" using wf by (simp_all add: well_formed_def)
  have pr: "nat (probe ?m h' d) < length ?ps" for h' d
    using probe_range[OF m(1), of h' d] m(2) by linarith
  from get_probes_probed[OF wf, of key] obtain r c where
    g: "get_probes t key = Some (Inr (r, c))" and p: "probed ?ps ?m ?h key 0 c r" by blast
  have c: "0 < c" "c \<le> nat ?m" using p by (simp_all add: probed_def)
  have skipped: "\<exists>k vs. ?ps ! nat (probe ?m ?h e) = Some (k, vs) \<and> k \<noteq> key" if "e < c - 1" for e
    using p that by (simp add: probed_def)
  have "case r of
          None \<Rightarrow> entries t key = None
        | Some (i, vs) \<Rightarrow> entries t key = Some vs \<and> 0 \<le> i \<and> i < ?m \<and> ?ps ! nat i = Some (key, vs)"
  proof (cases r)
    case None
    have last: "?ps ! nat (probe ?m ?h (c - 1)) = None \<or>
                (c = nat ?m \<and> (\<exists>k vs. ?ps ! nat (probe ?m ?h (c - 1)) = Some (k, vs) \<and> k \<noteq> key))"
      using p None by (simp add: probed_def)
    have "entries t key = None"
    proof (rule ccontr)
      assume "entries t key \<noteq> None"
      then obtain vs where "map_of (occupied ?ps) key = Some vs" by (auto simp: entries_def)
      then have "(key, vs) \<in> set (occupied ?ps)" by (rule map_of_SomeD)
      then have "Some (key, vs) \<in> set ?ps" by (simp add: set_occupied)
      then obtain j where j: "j < length ?ps" "?ps ! j = Some (key, vs)"
        by (auto simp: in_set_conv_nth)
      let ?D = "nat ((?h - int j) mod ?m)"
      have Dj: "probe ?m ?h ?D = int j" using probe_dist[of ?m "int j" ?h] m j by simp
      have Dm: "?D < nat ?m" using m by (simp add: nat_less_iff)
      have filled: "?ps ! nat (probe ?m ?h d) \<noteq> None" if "d \<le> ?D" for d
        using paths j that unfolding paths_filled_def by blast
      consider "?D < c - 1" | "?D = c - 1" | "c - 1 < ?D" by linarith
      then show False
      proof cases
        case 1
        from skipped[OF 1] show False using Dj j by simp
      next
        case 2
        then show False using last Dj j by auto
      next
        case 3
        then have "?ps ! nat (probe ?m ?h (c - 1)) \<noteq> None" using filled[of "c - 1"] by simp
        then have "c = nat ?m" using last by auto
        then show False using 3 Dm by linarith
      qed
    qed
    then show ?thesis using None by simp
  next
    case (Some a)
    obtain i vs where a: "a = (i, vs)" by (cases a)
    have iv: "i = probe ?m ?h (c - 1)" "?ps ! nat i = Some (key, vs)"
      using p Some a by (auto simp: probed_def)
    have ir: "0 \<le> i" "i < ?m" using iv(1) probe_range[OF m(1), of ?h "c - 1"] by simp_all
    have "nat i < length ?ps" using iv(1) pr by simp
    then have "Some (key, vs) \<in> set ?ps" using iv(2) nth_mem[of "nat i" ?ps] by simp
    then have "(key, vs) \<in> set (occupied ?ps)" by (simp add: set_occupied)
    then have "map_of (occupied ?ps) key = Some vs" using dist by (simp add: map_of_eq_Some_iff)
    then show ?thesis using Some a ir iv(2) by (simp add: entries_def)
  qed
  with g c show ?thesis by blast
qed

lemma get_inv:
  assumes "table_inv t" shows "get t key = Some (Inr (entries t key))"
proof -
  from get_probes_inv[OF assms, of key] obtain r c where
    g: "get_probes t key = Some (Inr (r, c))"
    and r: "case r of None \<Rightarrow> entries t key = None
            | Some (i, vs) \<Rightarrow> entries t key = Some vs \<and> 0 \<le> i \<and> i < tsize t \<and>
                              pairs t ! nat i = Some (key, vs)"
    by blast
  show ?thesis
  proof (cases r)
    case None
    then show ?thesis using g r by (simp add: get_def)
  next
    case (Some a)
    then show ?thesis using g r by (cases a) (simp add: get_def)
  qed
qed

lemma contains_inv: "table_inv t \<Longrightarrow> contains t key = Some (Inr (entries t key \<noteq> None))"
  by (simp add: contains_def get_inv)

lemma get_append_inv:
  assumes inv: "table_inv t" and present: "entries t key = Some vs"
  shows "\<exists>t'. get_append t key w = Some (Inr t') \<and> table_inv t' \<and>
              entries t' = (entries t)(key \<mapsto> vs @ [w]) \<and>
              length (occupied (pairs t')) = length (occupied (pairs t)) \<and>
              length (pairs t') = length (pairs t)"
proof -
  let ?m = "tsize t" and ?ps = "pairs t"
  have wf: "well_formed t" and dist: "distinct (map fst (occupied ?ps))"
    and paths: "paths_filled ?m ?ps" using inv by (simp_all add: table_inv_def)
  have m: "0 < ?m" "?m = int (length ?ps)" using wf by (simp_all add: well_formed_def)
  have pr: "nat (probe ?m h' d) < length ?ps" for h' d
    using probe_range[OF m(1), of h' d] m(2) by linarith
  from get_probes_inv[OF inv, of key] present obtain i c where
    g: "get_probes t key = Some (Inr (Some (i, vs), c))"
    and i: "0 \<le> i" "i < ?m" "?ps ! nat i = Some (key, vs)"
    by (auto split: option.splits)
  let ?j = "nat i"
  let ?ps' = "?ps[?j := Some (key, vs @ [w])]"
  let ?t' = "t\<lparr>pairs := ?ps'\<rparr>"
  have il: "i < int (length ?ps)" using i m by simp
  have j: "?j < length ?ps" using i m by linarith
  have run: "get_append t key w = Some (Inr ?t')"
    by (simp add: get_append_def g setitem_in_range[OF i(1) il])
  let ?A = "occupied (take ?j ?ps)" and ?B = "occupied (drop (Suc ?j) ?ps)"
  have occ: "occupied ?ps = ?A @ (key, vs) # ?B" using occupied_split_Some[OF j i(3)] .
  have occ': "occupied ?ps' = ?A @ (key, vs @ [w]) # ?B" using occupied_update[OF j] .
  have notin: "key \<notin> fst ` set ?A" using dist unfolding occ by auto
  have dist': "distinct (map fst (occupied ?ps'))" using dist unfolding occ occ' by simp
  have ent: "entries ?t' = (entries t)(key \<mapsto> vs @ [w])"
    unfolding entries_def using map_of_replace[OF notin, of "vs @ [w]" ?B vs]
    by (simp add: occ occ')
  have len: "length (occupied (pairs ?t')) = length (occupied ?ps)" by (simp add: occ occ')
  have paths': "paths_filled ?m ?ps'"
    unfolding paths_filled_def
  proof (intro allI impI)
    fix x k vs' d
    assume x: "x < length ?ps'" and slot: "?ps' ! x = Some (k, vs')"
      and d: "d \<le> nat ((home ?m k - int x) mod ?m)"
    have "\<exists>vs''. ?ps ! x = Some (k, vs'')"
    proof (cases "x = ?j")
      case True
      then show ?thesis using slot j i(3) by simp
    next
      case False
      then show ?thesis using slot by simp
    qed
    moreover have "x < length ?ps" using x by simp
    ultimately have "?ps ! nat (probe ?m (home ?m k) d) \<noteq> None"
      using paths d unfolding paths_filled_def by blast
    then show "?ps' ! nat (probe ?m (home ?m k) d) \<noteq> None"
      using pr by (rule update_keeps_occupied)
  qed
  have "well_formed ?t'" using wf by (simp add: well_formed_def)
  then have "table_inv ?t'" using dist' paths' by (simp add: table_inv_def)
  moreover have "length (pairs ?t') = length ?ps" by simp
  ultimately show ?thesis using run ent len by blast
qed

lemma put_inv:
  assumes inv: "table_inv t" and fresh: "entries t key = None"
    and room: "length (occupied (pairs t)) < length (pairs t)"
  shows "\<exists>t'. put t key v = Some (Inr t') \<and> table_inv t' \<and>
              entries t' = (entries t)(key \<mapsto> [v]) \<and>
              length (occupied (pairs t')) = Suc (length (occupied (pairs t))) \<and>
              length (pairs t') = length (pairs t)"
proof -
  have wf: "well_formed t" using inv by (simp add: table_inv_def)
  from put_slot[OF wf free_slot[OF room], of key v] obtain D where
    D: "D < nat (tsize t)"
       "pairs t ! nat (probe (tsize t) (home (tsize t) key) D) = None"
       "\<forall>d<D. pairs t ! nat (probe (tsize t) (home (tsize t) key) d) \<noteq> None"
    and run: "put t key v = Some (Inr (t\<lparr>pairs :=
               (pairs t)[nat (probe (tsize t) (home (tsize t) key) D) := Some (key, [v])]\<rparr>))"
    by blast
  from inv_put[OF inv fresh D refl, of v] run show ?thesis by simp
qed

subsection \<open>The hash function\<close>

lemma hash_loop_foldl: "hash_loop p key = foldl (\<lambda>acc c. 31 * acc + ord c) p key"
  by (induction key arbitrary: p) simp_all

lemma hash_loop_poly:
  "hash_loop p key = p * 31 ^ length key + (\<Sum>i<length key. ord (key ! i) * 31 ^ (length key - Suc i))"
proof (induction key arbitrary: p)
  case Nil
  then show ?case by simp
next
  case (Cons c cs)
  have shift: "(\<Sum>i<length (c # cs). ord ((c # cs) ! i) * 31 ^ (length (c # cs) - Suc i)) =
               ord c * 31 ^ length cs + (\<Sum>i<length cs. ord (cs ! i) * 31 ^ (length cs - Suc i))"
    by (simp add: sum.lessThan_Suc_shift del: sum.lessThan_Suc)
  have "hash_loop p (c # cs) =
          (31 * p + ord c) * 31 ^ length cs +
          (\<Sum>i<length cs. ord (cs ! i) * 31 ^ (length cs - Suc i))"
    by (simp add: Cons.IH)
  also have "\<dots> = p * 31 ^ length (c # cs) +
          (ord c * 31 ^ length cs + (\<Sum>i<length cs. ord (cs ! i) * 31 ^ (length cs - Suc i)))"
    by (simp add: algebra_simps)
  finally show ?case by (simp only: shift)
qed

text \<open>
  Claim C6.  For a table whose size is not zero, the hash of a key is Horner's rule with
  multiplier 31 and initial accumulator 0 over the characters of the key, taken modulo
  the size; the value is the polynomial \<open>\<Sum> ord(key[i]) * 31^(len - 1 - i)\<close>.  The
  hash is a function of the size and the key alone, so equal keys hash equally.
\<close>

theorem hash_horner:
  "tsize t \<noteq> 0 \<Longrightarrow>
     hash t key = Inr (horner key mod tsize t) \<and>
     horner key = (\<Sum>i<length key. ord (key ! i) * 31 ^ (length key - Suc i))"
  using hash_loop_poly[of 0 key] by (simp add: hash_def horner_def hash_loop_foldl Let_def)

theorem hash_horner_witness:
  "tsize (Hashtable 7) \<noteq> 0 \<and> hash (Hashtable 7) ''ab'' = Inr 4 \<and> horner ''ab'' = 97 * 31 + 98"
  using hash_horner[of "Hashtable 7" "''ab''"]
  by (simp add: Hashtable_def horner_def ord_def)

subsection \<open>Inputs the program does not handle\<close>

lemma put_full:
  assumes wf: "well_formed t" and full: "\<forall>s\<in>set (pairs t). s \<noteq> None"
  shows "put t key v = None"
proof -
  let ?m = "tsize t" and ?ps = "pairs t"
  let ?h = "home ?m key"
  have m: "0 < ?m" "?m = int (length ?ps)" using wf by (simp_all add: well_formed_def)
  have h: "0 \<le> ?h" "?h < int (length ?ps)" using home_range[OF m(1), of key] m by simp_all
  have "nat ?h < length ?ps" using h by linarith
  then have "?ps ! nat ?h \<in> set ?ps" by (rule nth_mem)
  then have occ: "?ps ! nat ?h \<noteq> None" using full by blast
  have "put_loop ?ps ?h = None"
  proof (cases "put_loop ?ps ?h")
    case (Some y)
    from put_loop_full[OF Some h full] show ?thesis ..
  qed simp
  then show ?thesis
    unfolding put_def hash_home[OF wf] using occ by (simp add: getitem_in_range[OF h])
qed

text \<open>
  Claim C1.  The claim asks for an error when a key is inserted into a table without an
  empty slot.  The loop of \<open>put\<close> has no exit but an empty slot: on the one-slot
  table that already holds a key, \<open>put\<close> does not return, and building the table of
  a two-word text with table size 1 does not return either.
\<close>

theorem put_on_full_table_diverges:
  "put \<lparr>pairs = [Some (''@'', [''a''])], tsize = 1\<rparr> ''a'' ''b'' = None \<and>
   build_prefix_suffix_table [''a'', ''b''] 1 1 = None"
proof -
  let ?T = "\<lparr>pairs = [Some (''@'', [''a''])], tsize = 1\<rparr>"
  have p: "put ?T ''a'' ''b'' = None"
    by (rule put_full) (simp_all add: well_formed_def)
  have c0: "contains (Hashtable 1) ''@'' = Some (Inr False)" by code_simp
  have p0: "put (Hashtable 1) ''@'' ''a'' = Some (Inr ?T)" by code_simp
  have c1: "contains ?T ''a'' = Some (Inr False)" by code_simp
  have "build_prefix_suffix_table [''a'', ''b''] 1 1 = None"
    by (simp add: build_prefix_suffix_table_def NONWORD_def c0 p0 c1 p pop0_def)
  with p show ?thesis by simp
qed

text \<open>
  Claim C3.  The claim asks for a table size of zero or less to be rejected before any
  work begins.  \<open>main\<close> checks the prefix size and the word count only: with table
  size 0 it goes on to build the table and the first hash raises \<open>ZeroDivisionError\<close>,
  and with table size -1 the first slot access raises \<open>IndexError\<close>, whatever the
  text is.
\<close>

theorem zero_capacity_not_rejected:
  "main randint s contents 0 1 1 = Some (Inl ZeroDivisionError) \<and>
   main randint s contents (- 1) 1 1 = Some (Inl IndexError)"
proof -
  have c: "contains (Hashtable 0) key = Some (Inl ZeroDivisionError)" for key
    by (simp add: contains_def get_def get_probes_def hash_def Hashtable_def)
  have "get_loop [] (- 1) key 0 0 0 = Some (Inl IndexError)" for key
    by (subst get_loop.simps) (simp add: getitem_def)
  then have d: "contains (Hashtable (- 1)) key = Some (Inl IndexError)" for key
    by (simp add: contains_def get_def get_probes_def hash_def Hashtable_def)
  show ?thesis
  proof (cases contents)
    case Nil
    then show ?thesis
      by (simp add: main_def build_prefix_suffix_table_def generate_text_def c d)
  next
    case (Cons w ws)
    then show ?thesis
      by (simp add: main_def build_prefix_suffix_table_def c d)
  qed
qed

subsection \<open>Stored value lists are never empty\<close>

lemma getitem_Inr: 
  assumes "getitem xs i = Inr x"
  shows "\<exists>j<length xs. xs ! j = x \<and> (\<forall>v. setitem xs i v = Inr (xs[j := v]))"
proof -
  consider "0 \<le> i \<and> i < int (length xs)" | "- int (length xs) \<le> i \<and> i < 0"
    using assms by (auto simp: getitem_def split: if_splits)
  then show ?thesis
  proof cases
    case 1
    then have "nat i < length xs" by linarith
    then show ?thesis using 1 assms by (auto simp: getitem_def setitem_def)
  next
    case 2
    then have "nat (int (length xs) + i) < length xs" by linarith
    then show ?thesis using 2 assms by (auto simp: getitem_def setitem_def)
  qed
qed

lemma setitem_Inr:
  assumes "setitem xs i v = Inr ys"
  shows "\<exists>j<length xs. ys = xs[j := v]"
proof -
  consider "0 \<le> i \<and> i < int (length xs)" | "- int (length xs) \<le> i \<and> i < 0"
    using assms by (auto simp: setitem_def split: if_splits)
  then show ?thesis
  proof cases
    case 1
    then have "nat i < length xs" by linarith
    then show ?thesis using 1 assms by (auto simp: setitem_def)
  next
    case 2
    then have "nat (int (length xs) + i) < length xs" by linarith
    then show ?thesis using 2 assms by (auto simp: setitem_def)
  qed
qed

lemma get_loop_found:
  assumes ret: "get_loop ps sz key start i n = Some (Inr (Some (j, vs), c))"
  shows "getitem ps j = Inr (Some (key, vs))"
proof -
  have "\<forall>j vs c. y = Inr (Some (j, vs), c) \<longrightarrow> getitem ps j = Inr (Some (key, vs))"
    if "get_loop ps sz key start i n = Some y" for y
  proof (rule get_loop.raw_induct[where
          P = "\<lambda>ps sz key start i n y.
                 \<forall>j vs c. y = Inr (Some (j, vs), c) \<longrightarrow> getitem ps j = Inr (Some (key, vs))",
          OF _ that])
    fix f :: "slot list \<Rightarrow> int \<Rightarrow> string \<Rightarrow> int \<Rightarrow> int \<Rightarrow> nat \<Rightarrow> ((int \<times> string list) option \<times> nat) result"
      and ps sz key start i n y
    assume IH: "\<And>ps sz key start i n y. f ps sz key start i n = Some y \<Longrightarrow>
                  \<forall>j vs c. y = Inr (Some (j, vs), c) \<longrightarrow> getitem ps j = Inr (Some (key, vs))"
      and eq: "(case getitem ps i of
                  Inl e \<Rightarrow> Some (Inl e)
                | Inr None \<Rightarrow> Some (Inr (None, Suc n))
                | Inr (Some (k, vs)) \<Rightarrow>
                    if k = key then Some (Inr (Some (i, vs), Suc n))
                    else if sz = 0 then Some (Inl ZeroDivisionError)
                    else let i' = (i - 1) mod sz
                         in if i' = start then Some (Inr (None, Suc n))
                            else f ps sz key start i' (Suc n)) = Some y"
    show "\<forall>j vs c. y = Inr (Some (j, vs), c) \<longrightarrow> getitem ps j = Inr (Some (key, vs))"
    proof (cases "getitem ps i")
      case (Inl e)
      then show ?thesis using eq by auto
    next
      case (Inr s)
      show ?thesis
      proof (cases s)
        case None
        then show ?thesis using eq Inr by auto
      next
        case (Some kv)
        obtain k vs0 where kv: "kv = (k, vs0)" by (cases kv)
        show ?thesis
        proof (cases "k = key")
          case True
          then show ?thesis using eq Inr Some kv by auto
        next
          case False
          show ?thesis
          proof (cases "sz = 0 \<or> (i - 1) mod sz = start")
            case True
            then have "y = Inl ZeroDivisionError \<or> y = Inr (None, Suc n)"
              using eq Inr Some kv False by (cases "sz = 0") (simp_all add: Let_def)
            then show ?thesis by auto
          next
            case stay: False
            then have "f ps sz key start ((i - 1) mod sz) (Suc n) = Some y"
              using eq Inr Some kv False by (simp add: Let_def)
            then show ?thesis by (rule IH)
          qed
        qed
      qed
    qed
  qed
  from this[OF ret] show ?thesis by simp
qed

lemma put_update:
  assumes "put t key v = Some (Inr t')"
  shows "\<exists>j<length (pairs t). t' = t\<lparr>pairs := (pairs t)[j := Some (key, [v])]\<rparr>"
proof -
  from assms obtain j ps where "setitem (pairs t) j (Some (key, [v])) = Inr ps" "t' = t\<lparr>pairs := ps\<rparr>"
    by (auto simp: put_def split: sum.splits option.splits if_splits)
  then show ?thesis using setitem_Inr[of "pairs t" j "Some (key, [v])" ps] by auto
qed

lemma get_append_update:
  assumes "get_append t key w = Some (Inr t')"
  shows "\<exists>j<length (pairs t). \<exists>vs. pairs t ! j = Some (key, vs) \<and>
           t' = t\<lparr>pairs := (pairs t)[j := Some (key, vs @ [w])]\<rparr>"
proof -
  from assms obtain i vs c ps where
    g: "get_probes t key = Some (Inr (Some (i, vs), c))"
    and s: "setitem (pairs t) i (Some (key, vs @ [w])) = Inr ps" and t': "t' = t\<lparr>pairs := ps\<rparr>"
    by (auto simp: get_append_def split: sum.splits option.splits if_splits)
  from g obtain h where "get_loop (pairs t) (tsize t) key h h 0 = Some (Inr (Some (i, vs), c))"
    by (auto simp: get_probes_def split: sum.splits)
  then have "getitem (pairs t) i = Inr (Some (key, vs))" by (rule get_loop_found)
  from getitem_Inr[OF this] obtain j where
    "j < length (pairs t)" "pairs t ! j = Some (key, vs)"
    "setitem (pairs t) i (Some (key, vs @ [w])) = Inr ((pairs t)[j := Some (key, vs @ [w])])"
    by blast
  then show ?thesis using s t' by auto
qed

lemma get_found:
  assumes "get t key = Some (Inr (Some vs))"
  shows "Some (key, vs) \<in> set (pairs t)"
proof -
  from assms obtain i c where g: "get_probes t key = Some (Inr (Some (i, vs), c))"
    by (auto simp: get_def split: sum.splits option.splits)
  from g obtain h where "get_loop (pairs t) (tsize t) key h h 0 = Some (Inr (Some (i, vs), c))"
    by (auto simp: get_probes_def split: sum.splits)
  then have "getitem (pairs t) i = Inr (Some (key, vs))" by (rule get_loop_found)
  from getitem_Inr[OF this] show ?thesis by (auto simp: in_set_conv_nth)
qed

lemma vals_nonempty_update:
  assumes "vals_nonempty t" "vs \<noteq> []"
  shows "vals_nonempty (t\<lparr>pairs := (pairs t)[j := Some (k, vs)]\<rparr>)"
  using assms set_update_subset_insert[of "pairs t" j "Some (k, vs)"]
  unfolding vals_nonempty_def by auto

lemma put_nonempty: "vals_nonempty t \<Longrightarrow> put t key v = Some (Inr t') \<Longrightarrow> vals_nonempty t'"
  using put_update[of t key v t'] vals_nonempty_update[of t "[v]"] by auto

lemma get_append_nonempty:
  "vals_nonempty t \<Longrightarrow> get_append t key w = Some (Inr t') \<Longrightarrow> vals_nonempty t'"
  using get_append_update[of t key w t'] vals_nonempty_update[of t _ _ key] by fastforce

lemma Hashtable_nonempty: "vals_nonempty (Hashtable sz)"
  by (simp add: vals_nonempty_def Hashtable_def)

lemma build_loop_step:
  assumes "build_loop t prefix (w # ws) = Some (Inr t')"
  shows "\<exists>present t1 rest.
           contains t (join '' '' prefix) = Some (Inr present) \<and>
           (if present then get_append t (join '' '' prefix) w else put t (join '' '' prefix) w)
             = Some (Inr t1) \<and>
           pop0 prefix = Inr rest \<and>
           build_loop t1 (rest @ [w]) ws = Some (Inr t')"
proof (cases "contains t (join '' '' prefix)")
  case None
  then show ?thesis using assms by simp
next
  case (Some c)
  show ?thesis
  proof (cases c)
    case (Inl e)
    then show ?thesis using assms Some by simp
  next
    case (Inr present)
    let ?step = "if present then get_append t (join '' '' prefix) w else put t (join '' '' prefix) w"
    show ?thesis
    proof (cases ?step)
      case None
      then show ?thesis using assms Some Inr by simp
    next
      case step: (Some r)
      show ?thesis
      proof (cases r)
        case (Inl e)
        then show ?thesis using assms Some Inr step by simp
      next
        case t1: (Inr t1)
        show ?thesis
        proof (cases "pop0 prefix")
          case (Inl e)
          then show ?thesis using assms Some Inr step t1 by simp
        next
          case rest: (Inr rest)
          then show ?thesis using assms Some Inr step t1 by simp
        qed
      qed
    qed
  qed
qed

lemma build_loop_nonempty:
  "vals_nonempty t \<Longrightarrow> build_loop t prefix ws = Some (Inr t') \<Longrightarrow> vals_nonempty t'"
proof (induction ws arbitrary: t prefix)
  case Nil
  then show ?case by simp
next
  case (Cons w ws)
  from build_loop_step[OF Cons.prems(2)] obtain present t1 rest where
    step: "(if present then get_append t (join '' '' prefix) w else put t (join '' '' prefix) w)
             = Some (Inr t1)"
    and rec: "build_loop t1 (rest @ [w]) ws = Some (Inr t')"
    by blast
  have "vals_nonempty t1"
  proof (cases present)
    case True
    then show ?thesis using step Cons.prems(1) get_append_nonempty by simp
  next
    case False
    then show ?thesis using step Cons.prems(1) put_nonempty by simp
  qed
  then show ?case using rec by (rule Cons.IH)
qed

text \<open>
  Claim C8.  The table made by \<open>Hashtable(size)\<close> has no empty value list.  A \<open>put\<close> that
  returns has written the one-element list \<open>[value]\<close> into one slot and changed nothing
  else, an append that returns has replaced the list \<open>vs\<close> of the key's slot by
  \<open>vs + [word]\<close> and changed nothing else, and both keep every stored value list
  non-empty; so does building the table from a word list.  In a table without empty
  value lists, every list that \<open>get\<close> returns is non-empty.
\<close>

theorem values_never_empty:
  "vals_nonempty (Hashtable sz) \<and>
   (put t key v = Some (Inr t1) \<longrightarrow>
      (\<exists>j<length (pairs t). t1 = t\<lparr>pairs := (pairs t)[j := Some (key, [v])]\<rparr>) \<and>
      (vals_nonempty t \<longrightarrow> vals_nonempty t1)) \<and>
   (get_append t key w = Some (Inr t2) \<longrightarrow>
      (\<exists>j<length (pairs t). \<exists>vs. pairs t ! j = Some (key, vs) \<and>
          t2 = t\<lparr>pairs := (pairs t)[j := Some (key, vs @ [w])]\<rparr>) \<and>
      (vals_nonempty t \<longrightarrow> vals_nonempty t2)) \<and>
   (build_prefix_suffix_table contents n sz = Some (Inr t3) \<longrightarrow> vals_nonempty t3) \<and>
   (vals_nonempty t \<and> get t key = Some (Inr (Some vs)) \<longrightarrow> vs \<noteq> [])"
proof -
  have a: "vals_nonempty (Hashtable sz)" by (rule Hashtable_nonempty)
  have b: "put t key v = Some (Inr t1) \<longrightarrow>
      (\<exists>j<length (pairs t). t1 = t\<lparr>pairs := (pairs t)[j := Some (key, [v])]\<rparr>) \<and>
      (vals_nonempty t \<longrightarrow> vals_nonempty t1)"
    using put_update[of t key v t1] put_nonempty[of t key v t1] by blast
  have c: "get_append t key w = Some (Inr t2) \<longrightarrow>
      (\<exists>j<length (pairs t). \<exists>vs. pairs t ! j = Some (key, vs) \<and>
          t2 = t\<lparr>pairs := (pairs t)[j := Some (key, vs @ [w])]\<rparr>) \<and>
      (vals_nonempty t \<longrightarrow> vals_nonempty t2)"
    using get_append_update[of t key w t2] get_append_nonempty[of t key w t2] by blast
  have d: "build_prefix_suffix_table contents n sz = Some (Inr t3) \<longrightarrow> vals_nonempty t3"
    unfolding build_prefix_suffix_table_def
    using build_loop_nonempty[OF Hashtable_nonempty] by blast
  have e: "vals_nonempty t \<and> get t key = Some (Inr (Some vs)) \<longrightarrow> vs \<noteq> []"
    using get_found[of t key vs] by (auto simp: vals_nonempty_def)
  from a b c d e show ?thesis by blast
qed

theorem values_never_empty_witness:
  "put (Hashtable 2) ''@'' ''a'' = Some (Inr \<lparr>pairs = [Some (''@'', [''a'']), None], tsize = 2\<rparr>) \<and>
   get_append \<lparr>pairs = [Some (''@'', [''a'']), None], tsize = 2\<rparr> ''@'' ''b''
     = Some (Inr \<lparr>pairs = [Some (''@'', [''a'', ''b'']), None], tsize = 2\<rparr>) \<and>
   build_prefix_suffix_table [''a''] 1 2 = Some (Inr \<lparr>pairs = [Some (''@'', [''a'']), None], tsize = 2\<rparr>) \<and>
   get \<lparr>pairs = [Some (''@'', [''a'', ''b'']), None], tsize = 2\<rparr> ''@'' = Some (Inr (Some [''a'', ''b''])) \<and>
   vals_nonempty \<lparr>pairs = [Some (''@'', [''a'']), None], tsize = 2\<rparr> \<and>
   vals_nonempty \<lparr>pairs = [Some (''@'', [''a'', ''b'']), None], tsize = 2\<rparr>"
proof -
  let ?T1 = "\<lparr>pairs = [Some (''@'', [''a'']), None], tsize = 2\<rparr>"
  let ?T2 = "\<lparr>pairs = [Some (''@'', [''a'', ''b'']), None], tsize = 2\<rparr>"
  have p: "put (Hashtable 2) ''@'' ''a'' = Some (Inr ?T1)" by code_simp
  have a: "get_append ?T1 ''@'' ''b'' = Some (Inr ?T2)" by code_simp
  have b: "build_prefix_suffix_table [''a''] 1 2 = Some (Inr ?T1)" by code_simp
  have g: "get ?T2 ''@'' = Some (Inr (Some [''a'', ''b'']))" by code_simp
  have "vals_nonempty ?T1"
    using values_never_empty[of 2 "Hashtable 2" "''@''" "''a''" ?T1] p by blast
  moreover from this have "vals_nonempty ?T2"
    using values_never_empty[of 2 ?T1 "''@''" _ _ "''b''" ?T2] a by blast
  ultimately show ?thesis using p a b g by simp
qed

subsection \<open>Lookup and insertion on a well-formed table\<close>

text \<open>
  Claim C7.  On a well-formed table, \<open>get\<close> returns, after \<open>c\<close> probes with
  \<open>1 \<le> c \<le> size\<close>.  The probes go down the probe order from the home index of the
  key; all but the last hit an occupied slot with another key.  If the last probe hit a
  slot with the key, the result is the value list of that slot; otherwise the last probe
  hit an empty slot, or it was the last slot of the table, and the result is \<open>None\<close>.
\<close>

theorem get_within_capacity:
  "well_formed t \<Longrightarrow>
     \<exists>r c. get_probes t key = Some (Inr (r, c)) \<and>
           get t key = Some (Inr (map_option snd r)) \<and>
           hash t key = Inr (home (tsize t) key) \<and>
           0 < c \<and> c \<le> nat (tsize t) \<and>
           probed (pairs t) (tsize t) (home (tsize t) key) key 0 c r"
proof -
  assume wf: "well_formed t"
  from get_probes_probed[OF wf, of key] obtain r c where
    g: "get_probes t key = Some (Inr (r, c))"
    and p: "probed (pairs t) (tsize t) (home (tsize t) key) key 0 c r" by blast
  have "get t key = Some (Inr (map_option snd r))" by (simp add: get_def g)
  moreover have "0 < c \<and> c \<le> nat (tsize t)" using p by (simp add: probed_def)
  ultimately show ?thesis using g p hash_home[OF wf] by blast
qed

theorem get_within_capacity_witness:
  "well_formed \<lparr>pairs = [Some (''x'', [''y'', ''y'']), Some (''@'', [''x'']), Some (''y'', [''x''])],
                tsize = 3\<rparr> \<and>
   get_probes \<lparr>pairs = [Some (''x'', [''y'', ''y'']), Some (''@'', [''x'']), Some (''y'', [''x''])],
                tsize = 3\<rparr> ''y'' = Some (Inr (Some (2, [''x'']), 3)) \<and>
   get \<lparr>pairs = [Some (''x'', [''y'', ''y'']), Some (''@'', [''x'']), Some (''y'', [''x''])],
                tsize = 3\<rparr> ''y'' = Some (Inr (Some [''x''])) \<and>
   probed [Some (''x'', [''y'', ''y'']), Some (''@'', [''x'']), Some (''y'', [''x''])] 3 1 ''y'' 0 3
     (Some (2, [''x'']))"
proof -
  let ?T = "\<lparr>pairs = [Some (''x'', [''y'', ''y'']), Some (''@'', [''x'']), Some (''y'', [''x''])],
             tsize = 3\<rparr>"
  have wf: "well_formed ?T" by (simp add: well_formed_def)
  have ev: "get_probes ?T ''y'' = Some (Inr (Some (2, [''x'']), 3))" by code_simp
  have h: "home 3 ''y'' = 1" by (simp add: home_def ord_def)
  from get_within_capacity[OF wf, of "''y''"] ev h wf show ?thesis by auto
qed

text \<open>
  Claim C9.  On a well-formed table with an empty slot, \<open>put\<close> returns a table that
  differs from the old one in exactly one slot: a slot that was empty now holds the
  key with the one-element list of the value; every other slot, the number of slots and
  the size are unchanged.
\<close>

theorem put_fills_one_empty_slot:
  "well_formed t \<Longrightarrow> None \<in> set (pairs t) \<Longrightarrow>
     \<exists>t' j. put t key v = Some (Inr t') \<and>
            j < length (pairs t) \<and> pairs t ! j = None \<and>
            pairs t' ! j = Some (key, [v]) \<and>
            length (pairs t') = length (pairs t) \<and> tsize t' = tsize t \<and>
            (\<forall>i<length (pairs t). i \<noteq> j \<longrightarrow> pairs t' ! i = pairs t ! i)"
proof -
  assume wf: "well_formed t" and "None \<in> set (pairs t)"
  then have free: "\<exists>j<length (pairs t). pairs t ! j = None" by (auto simp: in_set_conv_nth)
  let ?m = "tsize t"
  have m: "0 < ?m" "?m = int (length (pairs t))" using wf by (simp_all add: well_formed_def)
  from put_slot[OF wf free, of key v] obtain D where
    D: "pairs t ! nat (probe ?m (home ?m key) D) = None"
    and run: "put t key v = Some (Inr (t\<lparr>pairs :=
               (pairs t)[nat (probe ?m (home ?m key) D) := Some (key, [v])]\<rparr>))"
    by blast
  let ?j = "nat (probe ?m (home ?m key) D)"
  have j: "?j < length (pairs t)" using probe_range[OF m(1), of "home ?m key" D] m(2) by linarith
  let ?t' = "t\<lparr>pairs := (pairs t)[?j := Some (key, [v])]\<rparr>"
  have "put t key v = Some (Inr ?t') \<and>
        ?j < length (pairs t) \<and> pairs t ! ?j = None \<and>
        pairs ?t' ! ?j = Some (key, [v]) \<and>
        length (pairs ?t') = length (pairs t) \<and> tsize ?t' = tsize t \<and>
        (\<forall>i<length (pairs t). i \<noteq> ?j \<longrightarrow> pairs ?t' ! i = pairs t ! i)"
    using run D j by simp
  then show ?thesis by blast
qed

theorem put_fills_one_empty_slot_witness:
  "well_formed \<lparr>pairs = [None, Some (''@'', [''x'']), None], tsize = 3\<rparr> \<and>
   None \<in> set (pairs \<lparr>pairs = [None, Some (''@'', [''x'']), None], tsize = 3\<rparr>) \<and>
   put \<lparr>pairs = [None, Some (''@'', [''x'']), None], tsize = 3\<rparr> ''y'' ''x''
     = Some (Inr \<lparr>pairs = [Some (''y'', [''x'']), Some (''@'', [''x'']), None], tsize = 3\<rparr>) \<and>
   (\<exists>t'. put \<lparr>pairs = [None, Some (''@'', [''x'']), None], tsize = 3\<rparr> ''y'' ''x''
              = Some (Inr t') \<and> length (pairs t') = 3 \<and> tsize t' = 3)"
proof -
  let ?T = "\<lparr>pairs = [None, Some (''@'', [''x'']), None], tsize = 3\<rparr>"
  have wf: "well_formed ?T" by (simp add: well_formed_def)
  have free: "None \<in> set (pairs ?T)" by simp
  have ev: "put ?T ''y'' ''x''
     = Some (Inr \<lparr>pairs = [Some (''y'', [''x'']), Some (''@'', [''x'']), None], tsize = 3\<rparr>)"
    by code_simp
  from put_fills_one_empty_slot[OF wf free, of "''y''" "''x''"] obtain t' where
    "put ?T ''y'' ''x'' = Some (Inr t')" "length (pairs t') = length (pairs ?T)" "tsize t' = tsize ?T"
    by blast
  then have "\<exists>t'. put ?T ''y'' ''x'' = Some (Inr t') \<and> length (pairs t') = 3 \<and> tsize t' = 3"
    by auto
  with wf free ev show ?thesis by blast
qed

subsection \<open>Insert, then look up\<close>

lemma put_all_inv:
  "table_inv t \<Longrightarrow> distinct (map fst kvs) \<Longrightarrow> \<forall>k\<in>fst ` set kvs. entries t k = None \<Longrightarrow>
   length (occupied (pairs t)) + length kvs \<le> length (pairs t) \<Longrightarrow>
   \<exists>t'. put_all t kvs = Some (Inr t') \<and> table_inv t' \<and>
        (\<forall>(k, v)\<in>set kvs. entries t' k = Some [v]) \<and>
        (\<forall>k. k \<notin> fst ` set kvs \<longrightarrow> entries t' k = entries t k)"
proof (induction kvs arbitrary: t)
  case Nil
  then show ?case by simp
next
  case (Cons kv kvs)
  obtain k v where kv: "kv = (k, v)" by (cases kv)
  have fresh: "entries t k = None" using Cons.prems(3) kv by simp
  have room: "length (occupied (pairs t)) < length (pairs t)" using Cons.prems(4) by simp
  from put_inv[OF Cons.prems(1) fresh room, of v] obtain t1 where
    t1: "put t k v = Some (Inr t1)" "table_inv t1" "entries t1 = (entries t)(k \<mapsto> [v])"
        "length (occupied (pairs t1)) = Suc (length (occupied (pairs t)))"
        "length (pairs t1) = length (pairs t)"
    by blast
  have notin: "k \<notin> fst ` set kvs" using Cons.prems(2) kv by simp
  have d: "distinct (map fst kvs)" using Cons.prems(2) by simp
  have f: "\<forall>k'\<in>fst ` set kvs. entries t1 k' = None"
  proof
    fix k' assume k': "k' \<in> fst ` set kvs"
    then have "k' \<noteq> k" using notin by auto
    moreover have "entries t k' = None" using Cons.prems(3) k' by auto
    ultimately show "entries t1 k' = None" by (simp add: t1(3))
  qed
  have r: "length (occupied (pairs t1)) + length kvs \<le> length (pairs t1)"
    using Cons.prems(4) t1(4,5) by simp
  from Cons.IH[OF t1(2) d f r] obtain t' where
    t': "put_all t1 kvs = Some (Inr t')" "table_inv t'"
        "\<forall>(k, v)\<in>set kvs. entries t' k = Some [v]"
        "\<forall>k. k \<notin> fst ` set kvs \<longrightarrow> entries t' k = entries t1 k"
    by blast
  have run: "put_all t (kv # kvs) = Some (Inr t')" using kv t1(1) t'(1) by simp
  have "entries t' k = Some [v]" using t'(4) notin t1(3) by simp
  then have a: "\<forall>(k, v)\<in>set (kv # kvs). entries t' k = Some [v]" using t'(3) kv by simp
  have b: "\<forall>k'. k' \<notin> fst ` set (kv # kvs) \<longrightarrow> entries t' k' = entries t k'"
    using t'(4) t1(3) kv by simp
  from run t'(2) a b show ?case by blast
qed

text \<open>
  Claim C5.  When pairwise distinct keys are put, one after the other, into a new table
  whose size is at least the number of keys, every \<open>put\<close> returns without raising, and
  afterwards \<open>get\<close> finds every key and returns the one-element list of the value that
  was put with it.
\<close>

theorem insert_lookup_round_trip:
  "distinct (map fst kvs) \<Longrightarrow> int (length kvs) \<le> sz \<Longrightarrow>
     \<exists>t. put_all (Hashtable sz) kvs = Some (Inr t) \<and>
         (\<forall>(k, v)\<in>set kvs. get t k = Some (Inr (Some [v])) \<and> contains t k = Some (Inr True))"
proof (cases "kvs = []")
  case True
  then show ?thesis by simp
next
  case False
  assume d: "distinct (map fst kvs)" and le: "int (length kvs) \<le> sz"
  from False le have pos: "0 < sz" by (cases kvs) auto
  have inv: "table_inv (Hashtable sz)" using pos by (rule inv_Hashtable)
  have f: "\<forall>k\<in>fst ` set kvs. entries (Hashtable sz) k = None"
    by (simp add: entries_Hashtable)
  have r: "length (occupied (pairs (Hashtable sz))) + length kvs \<le> length (pairs (Hashtable sz))"
  proof -
    have "length (pairs (Hashtable sz)) = nat sz" by (simp add: Hashtable_def)
    then show ?thesis using le by (simp add: occupied_Hashtable)
  qed
  from put_all_inv[OF inv d f r] obtain t where
    t: "put_all (Hashtable sz) kvs = Some (Inr t)" "table_inv t"
       "\<forall>(k, v)\<in>set kvs. entries t k = Some [v]"
    by blast
  have "\<forall>(k, v)\<in>set kvs. get t k = Some (Inr (Some [v])) \<and> contains t k = Some (Inr True)"
    using t(3) by (auto simp: get_inv[OF t(2)] contains_inv[OF t(2)])
  with t(1) show ?thesis by blast
qed

theorem insert_lookup_round_trip_witness:
  "distinct (map fst [(''@'', ''a''), (''y'', ''b''), (''x'', ''c'')]) \<and>
   int (length [(''@'', ''a''), (''y'', ''b''), (''x'', ''c'')]) \<le> 3 \<and>
   put_all (Hashtable 3) [(''@'', ''a''), (''y'', ''b''), (''x'', ''c'')]
     = Some (Inr \<lparr>pairs = [Some (''y'', [''b'']), Some (''@'', [''a'']), Some (''x'', [''c''])],
                  tsize = 3\<rparr>) \<and>
   get \<lparr>pairs = [Some (''y'', [''b'']), Some (''@'', [''a'']), Some (''x'', [''c''])], tsize = 3\<rparr>
     ''x'' = Some (Inr (Some [''c'']))"
proof -
  let ?kvs = "[(''@'', ''a''), (''y'', ''b''), (''x'', ''c'')]"
  let ?T = "\<lparr>pairs = [Some (''y'', [''b'']), Some (''@'', [''a'']), Some (''x'', [''c''])],
             tsize = 3\<rparr>"
  have d: "distinct (map fst ?kvs)" by simp
  have l: "int (length ?kvs) \<le> 3" by simp
  have ev: "put_all (Hashtable 3) ?kvs = Some (Inr ?T)" by code_simp
  from insert_lookup_round_trip[OF d l] ev
  have "\<forall>(k, v)\<in>set ?kvs. get ?T k = Some (Inr (Some [v])) \<and> contains ?T k = Some (Inr True)"
    by auto
  then have "get ?T ''x'' = Some (Inr (Some [''c'']))" by simp
  with d l ev show ?thesis by blast
qed

subsection \<open>Generation stays inside the candidate lists\<close>

lemma get_total:
  assumes "well_formed t" shows "\<exists>r. get t key = Some (Inr r)"
proof -
  from get_probes_probed[OF assms, of key] obtain r c where
    "get_probes t key = Some (Inr (r, c))" by blast
  then show ?thesis by (simp add: get_def)
qed

lemma pick_suffix_in_range:
  assumes ok: "randint_ok randint" and ne: "suffixes \<noteq> []"
  shows "\<exists>w s'. pick_suffix randint s suffixes = Inr (w, s') \<and> w \<in> set suffixes"
proof (cases "length suffixes > 1")
  case True
  obtain i s' where r: "randint s 0 (int (length suffixes) - 1) = (i, s')"
    by (cases "randint s 0 (int (length suffixes) - 1)")
  have "(0::int) \<le> int (length suffixes) - 1" using ne by (cases suffixes) simp_all
  then have "0 \<le> fst (randint s 0 (int (length suffixes) - 1)) \<and>
        fst (randint s 0 (int (length suffixes) - 1)) \<le> int (length suffixes) - 1"
    using ok unfolding randint_ok_def by blast
  then have i: "0 \<le> i" "i < int (length suffixes)" using r by simp_all
  then have "nat i < length suffixes" by linarith
  then have "suffixes ! nat i \<in> set suffixes" by (rule nth_mem)
  then show ?thesis using True r by (simp add: pick_suffix_def getitem_in_range[OF i])
next
  case False
  have z: "(0::int) \<le> 0" "0 < int (length suffixes)" using ne by simp_all
  have "suffixes ! 0 \<in> set suffixes" using ne by simp
  then show ?thesis using False getitem_in_range[OF z] by (simp add: pick_suffix_def)
qed

lemma pick_suffix_multi:
  assumes ok: "randint_ok randint" and many: "1 < length suffixes"
    and draw: "randint s 0 (int (length suffixes) - 1) = (i, s')"
  shows "0 \<le> i \<and> i \<le> int (length suffixes) - 1 \<and>
         getitem suffixes i = Inr (suffixes ! nat i) \<and>
         pick_suffix randint s suffixes = Inr (suffixes ! nat i, s')"
proof -
  have "(0::int) \<le> int (length suffixes) - 1" using many by (cases suffixes) simp_all
  then have "0 \<le> fst (randint s 0 (int (length suffixes) - 1)) \<and>
        fst (randint s 0 (int (length suffixes) - 1)) \<le> int (length suffixes) - 1"
    using ok unfolding randint_ok_def by blast
  then have i: "0 \<le> i" "i \<le> int (length suffixes) - 1" using draw by simp_all
  then have il: "i < int (length suffixes)" by simp
  have g: "getitem suffixes i = Inr (suffixes ! nat i)" using i(1) il by (rule getitem_in_range)
  have "pick_suffix randint s suffixes = Inr (suffixes ! nat i, s')"
    using many draw g by (simp add: pick_suffix_def)
  with i g show ?thesis by simp
qed

lemma pick_suffix_one:
  assumes ne: "suffixes \<noteq> []" and one: "\<not> 1 < length suffixes"
  shows "length suffixes = 1 \<and> getitem suffixes 0 = Inr (suffixes ! 0) \<and>
         pick_suffix randint s suffixes = Inr (suffixes ! 0, s)"
proof -
  have len: "length suffixes = 1" using ne one by (cases suffixes) simp_all
  have z: "(0::int) \<le> 0" "0 < int (length suffixes)" using len by simp_all
  have g: "getitem suffixes 0 = Inr (suffixes ! 0)" using getitem_in_range[OF z] by simp
  have "pick_suffix randint s suffixes = Inr (suffixes ! 0, s)"
    using one g by (simp add: pick_suffix_def)
  with len g show ?thesis by simp
qed

lemma generate_loop_total:
  assumes wf: "well_formed t" and ne: "vals_nonempty t" and ok: "randint_ok randint"
  shows "prefix \<noteq> [] \<Longrightarrow>
         \<exists>out. generate_loop randint t word_count s tlist prefix = Some (Inr out) \<and>
               length out \<le> max (length tlist) (nat word_count)"
proof (induction "nat (word_count - int (length tlist))" arbitrary: s tlist prefix)
  case 0
  then have stop: "\<not> int (length tlist) < word_count" by simp
  from get_total[OF wf, of "join '' '' prefix"] obtain r where
    "get t (join '' '' prefix) = Some (Inr r)" by blast
  then have "contains t (join '' '' prefix) = Some (Inr (if r = None then False else True))"
    by (simp add: contains_def)
  then have "generate_loop randint t word_count s tlist prefix = Some (Inr tlist)"
    using stop by (subst generate_loop.simps) simp
  then show ?case by simp
next
  case (Suc x)
  then have go: "int (length tlist) < word_count" by simp
  from get_total[OF wf, of "join '' '' prefix"] obtain r where
    g: "get t (join '' '' prefix) = Some (Inr r)" by blast
  then have c: "contains t (join '' '' prefix) = Some (Inr (if r = None then False else True))"
    by (simp add: contains_def)
  show ?case
  proof (cases r)
    case None
    then have "generate_loop randint t word_count s tlist prefix = Some (Inr tlist)"
      using c by (subst generate_loop.simps) simp
    then show ?thesis by simp
  next
    case (Some suffixes)
    have "Some (join '' '' prefix, suffixes) \<in> set (pairs t)"
      using g Some by (intro get_found) simp
    then have "suffixes \<noteq> []" using ne by (auto simp: vals_nonempty_def)
    from pick_suffix_in_range[OF ok this, of s] obtain w s' where
      p: "pick_suffix randint s suffixes = Inr (w, s')" by blast
    obtain a rest where pre: "prefix = a # rest" using Suc.prems by (cases prefix) auto
    have step: "generate_loop randint t word_count s tlist prefix =
                generate_loop randint t word_count s' (tlist @ [w]) (rest @ [w])"
      using c g Some go p pre by (subst generate_loop.simps) (simp add: pop0_def)
    have "x = nat (word_count - int (length (tlist @ [w])))" using Suc.hyps(2) by simp
    from Suc.hyps(1)[OF this, of "rest @ [w]" s'] obtain out where
      "generate_loop randint t word_count s' (tlist @ [w]) (rest @ [w]) = Some (Inr out)"
      "length out \<le> max (length (tlist @ [w])) (nat word_count)" by auto
    moreover have "max (length (tlist @ [w])) (nat word_count) = max (length tlist) (nat word_count)"
      using go by simp
    ultimately show ?thesis using step by simp
  qed
qed

text \<open>
  Claim C10.  Let the table be well-formed with no empty value list (as
  \<open>build_prefix_suffix_table\<close> leaves it for a positive size), let the prefix size be at
  least one (as \<open>main\<close> checks) and let \<open>randint\<close> keep its contract.  Then every
  list of candidates that \<open>get\<close> returns is non-empty.  If it has more than one
  element, the index \<open>i\<close> drawn by \<open>randint(0, len - 1)\<close> satisfies
  \<open>0 \<le> i \<le> len - 1\<close>, reading the list at \<open>i\<close> does not raise, and the word chosen
  is the element at \<open>i\<close>.  Otherwise the list has exactly one element, reading it at
  index 0 does not raise, and the word chosen is the element at 0.  In both cases the
  word chosen is a candidate, and \<open>generate_text\<close> returns a list of at most
  \<open>word_count\<close> words without raising.
\<close>

theorem generate_text_indexes_in_range:
  "well_formed t \<Longrightarrow> vals_nonempty t \<Longrightarrow> 1 \<le> n \<Longrightarrow> randint_ok randint \<Longrightarrow>
     (get t key = Some (Inr (Some suffixes)) \<longrightarrow>
        suffixes \<noteq> [] \<and>
        (1 < length suffixes \<longrightarrow>
           (case randint s 0 (int (length suffixes) - 1) of
              (i, s') \<Rightarrow>
                 0 \<le> i \<and> i \<le> int (length suffixes) - 1 \<and>
                 getitem suffixes i = Inr (suffixes ! nat i) \<and>
                 pick_suffix randint s suffixes = Inr (suffixes ! nat i, s'))) \<and>
        (\<not> 1 < length suffixes \<longrightarrow>
           length suffixes = 1 \<and>
           getitem suffixes 0 = Inr (suffixes ! 0) \<and>
           pick_suffix randint s suffixes = Inr (suffixes ! 0, s)) \<and>
        (\<exists>w s'. pick_suffix randint s suffixes = Inr (w, s') \<and> w \<in> set suffixes)) \<and>
     (\<exists>out. generate_text randint s t n word_count = Some (Inr out) \<and>
            length out \<le> nat word_count)"
proof -
  assume wf: "well_formed t" and ne: "vals_nonempty t" and n: "1 \<le> n" and ok: "randint_ok randint"
  have a: "get t key = Some (Inr (Some suffixes)) \<longrightarrow>
        suffixes \<noteq> [] \<and>
        (1 < length suffixes \<longrightarrow>
           (case randint s 0 (int (length suffixes) - 1) of
              (i, s') \<Rightarrow>
                 0 \<le> i \<and> i \<le> int (length suffixes) - 1 \<and>
                 getitem suffixes i = Inr (suffixes ! nat i) \<and>
                 pick_suffix randint s suffixes = Inr (suffixes ! nat i, s'))) \<and>
        (\<not> 1 < length suffixes \<longrightarrow>
           length suffixes = 1 \<and>
           getitem suffixes 0 = Inr (suffixes ! 0) \<and>
           pick_suffix randint s suffixes = Inr (suffixes ! 0, s)) \<and>
        (\<exists>w s'. pick_suffix randint s suffixes = Inr (w, s') \<and> w \<in> set suffixes)"
  proof
    assume "get t key = Some (Inr (Some suffixes))"
    then have "Some (key, suffixes) \<in> set (pairs t)" by (rule get_found)
    then have nonempty: "suffixes \<noteq> []" using ne by (auto simp: vals_nonempty_def)
    have multi: "1 < length suffixes \<longrightarrow>
           (case randint s 0 (int (length suffixes) - 1) of
              (i, s') \<Rightarrow>
                 0 \<le> i \<and> i \<le> int (length suffixes) - 1 \<and>
                 getitem suffixes i = Inr (suffixes ! nat i) \<and>
                 pick_suffix randint s suffixes = Inr (suffixes ! nat i, s'))"
    proof
      assume many: "1 < length suffixes"
      obtain i s' where draw: "randint s 0 (int (length suffixes) - 1) = (i, s')"
        by (cases "randint s 0 (int (length suffixes) - 1)")
      from pick_suffix_multi[OF ok many draw]
      show "case randint s 0 (int (length suffixes) - 1) of
              (i, s') \<Rightarrow>
                 0 \<le> i \<and> i \<le> int (length suffixes) - 1 \<and>
                 getitem suffixes i = Inr (suffixes ! nat i) \<and>
                 pick_suffix randint s suffixes = Inr (suffixes ! nat i, s')"
        by (simp add: draw)
    qed
    have single: "\<not> 1 < length suffixes \<longrightarrow>
           length suffixes = 1 \<and>
           getitem suffixes 0 = Inr (suffixes ! 0) \<and>
           pick_suffix randint s suffixes = Inr (suffixes ! 0, s)"
      using pick_suffix_one[OF nonempty, of randint s] by blast
    have some: "\<exists>w s'. pick_suffix randint s suffixes = Inr (w, s') \<and> w \<in> set suffixes"
      using pick_suffix_in_range[OF ok nonempty, of s] .
    from nonempty multi single some
    show "suffixes \<noteq> [] \<and>
        (1 < length suffixes \<longrightarrow>
           (case randint s 0 (int (length suffixes) - 1) of
              (i, s') \<Rightarrow>
                 0 \<le> i \<and> i \<le> int (length suffixes) - 1 \<and>
                 getitem suffixes i = Inr (suffixes ! nat i) \<and>
                 pick_suffix randint s suffixes = Inr (suffixes ! nat i, s'))) \<and>
        (\<not> 1 < length suffixes \<longrightarrow>
           length suffixes = 1 \<and>
           getitem suffixes 0 = Inr (suffixes ! 0) \<and>
           pick_suffix randint s suffixes = Inr (suffixes ! 0, s)) \<and>
        (\<exists>w s'. pick_suffix randint s suffixes = Inr (w, s') \<and> w \<in> set suffixes)"
      by blast
  qed
  have "replicate (nat n) NONWORD \<noteq> []" using n by simp
  from generate_loop_total[OF wf ne ok this, of word_count s "[]"]
  have b: "\<exists>out. generate_text randint s t n word_count = Some (Inr out) \<and>
            length out \<le> nat word_count"
    by (simp add: generate_text_def)
  from a b show ?thesis by blast
qed

theorem generate_text_indexes_in_range_witness:
  "well_formed \<lparr>pairs = [Some (''x'', [''y'', ''z'']), Some (''@'', [''x'']), None], tsize = 3\<rparr> \<and>
   vals_nonempty \<lparr>pairs = [Some (''x'', [''y'', ''z'']), Some (''@'', [''x'']), None], tsize = 3\<rparr> \<and>
   randint_ok lowest \<and>
   get \<lparr>pairs = [Some (''x'', [''y'', ''z'']), Some (''@'', [''x'']), None], tsize = 3\<rparr> ''x''
     = Some (Inr (Some [''y'', ''z''])) \<and>
   lowest () 0 (int (length [''y'', ''z'']) - 1) = (0, ()) \<and>
   getitem [''y'', ''z''] 0 = Inr ''y'' \<and>
   pick_suffix lowest () [''y'', ''z''] = Inr (''y'', ()) \<and>
   get \<lparr>pairs = [Some (''x'', [''y'', ''z'']), Some (''@'', [''x'']), None], tsize = 3\<rparr> ''@''
     = Some (Inr (Some [''x''])) \<and>
   pick_suffix lowest () [''x''] = Inr (''x'', ()) \<and>
   generate_text lowest ()
     \<lparr>pairs = [Some (''x'', [''y'', ''z'']), Some (''@'', [''x'']), None], tsize = 3\<rparr> 1 5
     = Some (Inr [''x'', ''y''])"
proof -
  let ?T = "\<lparr>pairs = [Some (''x'', [''y'', ''z'']), Some (''@'', [''x'']), None], tsize = 3\<rparr>"
  have wf: "well_formed ?T" by (simp add: well_formed_def)
  have ne: "vals_nonempty ?T" by (simp add: vals_nonempty_def)
  have ok: "randint_ok lowest" by (simp add: randint_ok_def lowest_def)
  have g: "get ?T ''x'' = Some (Inr (Some [''y'', ''z'']))" by code_simp
  have g0: "get ?T ''@'' = Some (Inr (Some [''x'']))" by code_simp
  have d: "lowest () 0 (int (length [''y'', ''z'']) - 1) = (0, ())" by (simp add: lowest_def)
  have e: "generate_text lowest () ?T 1 5 = Some (Inr [''x'', ''y''])" by code_simp
  have one: "(1::int) \<le> 1" by simp
  from generate_text_indexes_in_range[OF wf ne one ok, of "''x''" "[''y'', ''z'']" "()" 5] g d
  have multi: "getitem [''y'', ''z''] 0 = Inr ''y'' \<and>
               pick_suffix lowest () [''y'', ''z''] = Inr (''y'', ())"
    by simp
  from generate_text_indexes_in_range[OF wf ne one ok, of "''@''" "[''x'']" "()" 5] g0
  have single: "pick_suffix lowest () [''x''] = Inr (''x'', ())"
    by simp
  from wf ne ok g g0 d e multi single show ?thesis by simp
qed

subsection \<open>Building the table refines building a map\<close>

lemma dom_build_map: "dom M \<subseteq> dom (build_map M prefix ws)"
proof (induction ws arbitrary: M prefix)
  case Nil
  then show ?case by simp
next
  case (Cons w ws)
  let ?M1 = "M(join '' '' prefix \<mapsto>
            (case M (join '' '' prefix) of None \<Rightarrow> [w] | Some vs \<Rightarrow> vs @ [w]))"
  have "dom M \<subseteq> dom ?M1" by auto
  also have "\<dots> \<subseteq> dom (build_map ?M1 (tl prefix @ [w]) ws)" by (rule Cons.IH)
  finally show ?case by simp
qed

lemma finite_dom_build_map: "finite (dom M) \<Longrightarrow> finite (dom (build_map M prefix ws))"
  by (induction ws arbitrary: M prefix) simp_all

lemma card_dom_entries:
  assumes "table_inv t" shows "card (dom (entries t)) = length (occupied (pairs t))"
proof -
  have d: "distinct (map fst (occupied (pairs t)))" using assms by (simp add: table_inv_def)
  have "dom (entries t) = set (map fst (occupied (pairs t)))"
    by (simp add: entries_def dom_map_of_conv_image_fst)
  then show ?thesis using distinct_card[OF d] by simp
qed

lemma build_loop_refines:
  "table_inv t \<Longrightarrow> prefix \<noteq> [] \<Longrightarrow>
   card (dom (build_map (entries t) prefix ws)) \<le> length (pairs t) \<Longrightarrow>
   \<exists>t'. build_loop t prefix ws = Some (Inr t') \<and> table_inv t' \<and>
        entries t' = build_map (entries t) prefix ws"
proof (induction ws arbitrary: t prefix)
  case Nil
  then show ?case by simp
next
  case (Cons w ws)
  let ?key = "join '' '' prefix"
  obtain a rest where pre: "prefix = a # rest" using Cons.prems(2) by (cases prefix) auto
  have c: "contains t ?key = Some (Inr (entries t ?key \<noteq> None))"
    using Cons.prems(1) by (rule contains_inv)
  have fin: "finite (dom (build_map (entries t) prefix (w # ws)))"
    by (rule finite_dom_build_map) (simp add: entries_def finite_dom_map_of)
  show ?case
  proof (cases "entries t ?key")
    case None
    let ?M1 = "(entries t)(?key \<mapsto> [w])"
    have final: "build_map (entries t) prefix (w # ws) = build_map ?M1 (rest @ [w]) ws"
      using None pre by simp
    have "card (dom ?M1) \<le> card (dom (build_map ?M1 (rest @ [w]) ws))"
      using fin dom_build_map[of ?M1 "rest @ [w]" ws] unfolding final by (intro card_mono)
    moreover have "card (dom ?M1) = Suc (card (dom (entries t)))"
    proof -
      have "?key \<notin> dom (entries t)" using None by auto
      moreover have "finite (dom (entries t))" by (simp add: entries_def finite_dom_map_of)
      ultimately show ?thesis by simp
    qed
    ultimately have room: "length (occupied (pairs t)) < length (pairs t)"
      using Cons.prems(3) card_dom_entries[OF Cons.prems(1)] unfolding final by linarith
    from put_inv[OF Cons.prems(1) None room, of w] obtain t1 where
      t1: "put t ?key w = Some (Inr t1)" "table_inv t1" "entries t1 = ?M1"
          "length (pairs t1) = length (pairs t)" by blast
    have step: "build_loop t prefix (w # ws) = build_loop t1 (rest @ [w]) ws"
      using c None t1(1) pre by (simp add: pop0_def)
    have "card (dom (build_map (entries t1) (rest @ [w]) ws)) \<le> length (pairs t1)"
      using Cons.prems(3) unfolding final t1(3) t1(4) .
    from Cons.IH[OF t1(2) _ this] obtain t' where
      "build_loop t1 (rest @ [w]) ws = Some (Inr t')" "table_inv t'"
      "entries t' = build_map (entries t1) (rest @ [w]) ws" by auto
    then show ?thesis using step final t1(3) by simp
  next
    case (Some vs)
    let ?M1 = "(entries t)(?key \<mapsto> vs @ [w])"
    have final: "build_map (entries t) prefix (w # ws) = build_map ?M1 (rest @ [w]) ws"
      using Some pre by simp
    from get_append_inv[OF Cons.prems(1) Some, of w] obtain t1 where
      t1: "get_append t ?key w = Some (Inr t1)" "table_inv t1" "entries t1 = ?M1"
          "length (pairs t1) = length (pairs t)" by blast
    have step: "build_loop t prefix (w # ws) = build_loop t1 (rest @ [w]) ws"
      using c Some t1(1) pre by (simp add: pop0_def)
    have "card (dom (build_map (entries t1) (rest @ [w]) ws)) \<le> length (pairs t1)"
      using Cons.prems(3) unfolding final t1(3) t1(4) .
    from Cons.IH[OF t1(2) _ this] obtain t' where
      "build_loop t1 (rest @ [w]) ws = Some (Inr t')" "table_inv t'"
      "entries t' = build_map (entries t1) (rest @ [w]) ws" by auto
    then show ?thesis using step final t1(3) by simp
  qed
qed

lemma build_refines:
  assumes "0 < sz" "1 \<le> n"
    and "card (dom (build_map Map.empty (replicate (nat n) NONWORD) contents)) \<le> nat sz"
  shows "\<exists>t. build_prefix_suffix_table contents n sz = Some (Inr t) \<and> table_inv t \<and>
             entries t = build_map Map.empty (replicate (nat n) NONWORD) contents"
proof -
  have inv: "table_inv (Hashtable sz)" using assms(1) by (rule inv_Hashtable)
  have ne: "replicate (nat n) NONWORD \<noteq> []" using assms(2) by simp
  have len: "length (pairs (Hashtable sz)) = nat sz" by (simp add: Hashtable_def)
  have "card (dom (build_map (entries (Hashtable sz)) (replicate (nat n) NONWORD) contents))
          \<le> length (pairs (Hashtable sz))"
    using assms(3) by (simp add: entries_Hashtable len)
  from build_loop_refines[OF inv ne this] show ?thesis
    by (simp add: build_prefix_suffix_table_def entries_Hashtable)
qed

text \<open>
  Claim C4.  For every table size of at least 3 (the text has three distinct prefixes),
  building the table of the text a b a b a c with prefix size 1 returns a table in which
  \<open>get\<close> gives \<open>[b, b, c]\<close> for the key a, \<open>[a, a]\<close> for the key b and \<open>[a]\<close>
  for the key made of the placeholder word.
\<close>

theorem build_example_table:
  "3 \<le> sz \<Longrightarrow>
     \<exists>t. build_prefix_suffix_table [''a'', ''b'', ''a'', ''b'', ''a'', ''c''] 1 sz = Some (Inr t) \<and>
         get t ''a'' = Some (Inr (Some [''b'', ''b'', ''c''])) \<and>
         get t ''b'' = Some (Inr (Some [''a'', ''a''])) \<and>
         get t (join '' '' [NONWORD]) = Some (Inr (Some [''a'']))"
proof -
  assume sz: "3 \<le> sz"
  let ?ws = "[''a'', ''b'', ''a'', ''b'', ''a'', ''c'']"
  let ?M = "build_map Map.empty (replicate (nat 1) NONWORD) ?ws"
  have dom: "dom ?M = {''a'', ''b'', ''@''}" by (auto simp: NONWORD_def)
  have "card (dom ?M) = 3" unfolding dom by simp
  then have "card (dom ?M) \<le> nat sz" using sz by simp
  from build_refines[OF _ _ this] sz obtain t where
    t: "build_prefix_suffix_table ?ws 1 sz = Some (Inr t)" "table_inv t" "entries t = ?M"
    by auto
  have a: "?M ''a'' = Some [''b'', ''b'', ''c'']" by (simp add: NONWORD_def)
  have b: "?M ''b'' = Some [''a'', ''a'']" by (simp add: NONWORD_def)
  have c: "?M (join '' '' [NONWORD]) = Some [''a'']" by (simp add: NONWORD_def)
  show ?thesis using t(1) a b c by (auto simp: get_inv[OF t(2)] t(3))
qed

theorem build_example_table_witness:
  "(3::int) \<le> 3 \<and>
   build_prefix_suffix_table [''a'', ''b'', ''a'', ''b'', ''a'', ''c''] 1 3
     = Some (Inr \<lparr>pairs = [Some (''a'', [''b'', ''b'', ''c'']), Some (''@'', [''a'']),
                          Some (''b'', [''a'', ''a''])], tsize = 3\<rparr>) \<and>
   get \<lparr>pairs = [Some (''a'', [''b'', ''b'', ''c'']), Some (''@'', [''a'']),
                 Some (''b'', [''a'', ''a''])], tsize = 3\<rparr> ''a''
     = Some (Inr (Some [''b'', ''b'', ''c'']))"
proof -
  let ?T = "\<lparr>pairs = [Some (''a'', [''b'', ''b'', ''c'']), Some (''@'', [''a'']),
                      Some (''b'', [''a'', ''a''])], tsize = 3\<rparr>"
  have ev: "build_prefix_suffix_table [''a'', ''b'', ''a'', ''b'', ''a'', ''c''] 1 3 = Some (Inr ?T)"
    by code_simp
  from build_example_table[of 3] ev have "get ?T ''a'' = Some (Inr (Some [''b'', ''b'', ''c'']))"
    by auto
  with ev show ?thesis by simp
qed

subsection \<open>The two example texts of the specification\<close>

lemma generate_loop_step:
  assumes "table_inv t" "entries t (join '' '' (a # rest)) = Some suffixes"
    and "int (length tlist) < word_count"
    and "pick_suffix randint s suffixes = Inr (w, s')"
  shows "generate_loop randint t word_count s tlist (a # rest) =
         generate_loop randint t word_count s' (tlist @ [w]) (rest @ [w])"
  using assms(2-4)
  by (subst generate_loop.simps)
     (simp add: contains_inv[OF assms(1)] get_inv[OF assms(1)] pop0_def)

lemma generate_loop_stop:
  assumes "table_inv t" "\<not> int (length tlist) < word_count"
  shows "generate_loop randint t word_count s tlist prefix = Some (Inr tlist)"
  using assms(2)
  by (subst generate_loop.simps) (simp add: contains_inv[OF assms(1)])

lemma pick_suffix_single: "pick_suffix randint s [w] = Inr (w, s)"
  by (simp add: pick_suffix_def getitem_def)

lemma pick_suffix_same:
  assumes "randint_ok randint"
  shows "pick_suffix randint s [w, w] = Inr (w, snd (randint s 0 1))"
proof -
  obtain i s' where r: "randint s 0 1 = (i, s')" by (cases "randint s 0 1")
  have "0 \<le> fst (randint s 0 1) \<and> fst (randint s 0 1) \<le> 1"
    using assms unfolding randint_ok_def by simp
  then have "i = 0 \<or> i = 1" using r by auto
  then show ?thesis using r by (auto simp: pick_suffix_def getitem_def)
qed

text \<open>
  Claim C2, as the code has it.  For every table size of at least 3 and every random
  source that keeps the contract of \<open>randint\<close>, the table built from the text x y x y
  with prefix size 1 generates, for a word count of 5, exactly the five words
  x y x y x: the walk starts at the placeholder prefix, whose only successor is x, and
  the two recorded successors of x are both y, so the draw does not matter.
\<close>

theorem generate_example_text:
  "3 \<le> sz \<Longrightarrow> randint_ok randint \<Longrightarrow>
     \<exists>t. build_prefix_suffix_table [''x'', ''y'', ''x'', ''y''] 1 sz = Some (Inr t) \<and>
         generate_text randint s t 1 5 = Some (Inr [''x'', ''y'', ''x'', ''y'', ''x''])"
proof -
  assume sz: "3 \<le> sz" and ok: "randint_ok randint"
  let ?ws = "[''x'', ''y'', ''x'', ''y'']"
  let ?M = "build_map Map.empty (replicate (nat 1) NONWORD) ?ws"
  have dom: "dom ?M = {''x'', ''y'', ''@''}" by (auto simp: NONWORD_def)
  have "card (dom ?M) = 3" unfolding dom by simp
  then have "card (dom ?M) \<le> nat sz" using sz by simp
  from build_refines[OF _ _ this] sz obtain t where
    t: "build_prefix_suffix_table ?ws 1 sz = Some (Inr t)" and inv: "table_inv t"
    and ent: "entries t = ?M"
    by auto
  have e0: "entries t (join '' '' [''@'']) = Some [''x'']" by (simp add: ent NONWORD_def)
  have ex: "entries t (join '' '' [''x'']) = Some [''y'', ''y'']" by (simp add: ent NONWORD_def)
  have ey: "entries t (join '' '' [''y'']) = Some [''x'']" by (simp add: ent NONWORD_def)
  define s1 where "s1 = snd (randint s 0 1)"
  define s2 where "s2 = snd (randint s1 0 1)"
  have "generate_text randint s t 1 5 = generate_loop randint t 5 s [] [''@'']"
    by (simp add: generate_text_def NONWORD_def)
  also have "\<dots> = generate_loop randint t 5 s [''x''] [''x'']"
    using generate_loop_step[OF inv e0 _ pick_suffix_single, of "[]" 5 randint s] by simp
  also have "\<dots> = generate_loop randint t 5 s1 [''x'', ''y''] [''y'']"
    using generate_loop_step[OF inv ex _ pick_suffix_same[OF ok], of "[''x'']" 5 s]
    by (simp add: s1_def)
  also have "\<dots> = generate_loop randint t 5 s1 [''x'', ''y'', ''x''] [''x'']"
    using generate_loop_step[OF inv ey _ pick_suffix_single, of "[''x'', ''y'']" 5 randint s1]
    by simp
  also have "\<dots> = generate_loop randint t 5 s2 [''x'', ''y'', ''x'', ''y''] [''y'']"
    using generate_loop_step[OF inv ex _ pick_suffix_same[OF ok], of "[''x'', ''y'', ''x'']" 5 s1]
    by (simp add: s2_def)
  also have "\<dots> = generate_loop randint t 5 s2 [''x'', ''y'', ''x'', ''y'', ''x''] [''x'']"
    using generate_loop_step[OF inv ey _ pick_suffix_single,
            of "[''x'', ''y'', ''x'', ''y'']" 5 randint s2]
    by simp
  also have "\<dots> = Some (Inr [''x'', ''y'', ''x'', ''y'', ''x''])"
    by (rule generate_loop_stop[OF inv]) simp
  finally show ?thesis using t by blast
qed

theorem generate_example_text_witness:
  "(3::int) \<le> 3 \<and> randint_ok lowest \<and>
   build_prefix_suffix_table [''x'', ''y'', ''x'', ''y''] 1 3
     = Some (Inr \<lparr>pairs = [Some (''x'', [''y'', ''y'']), Some (''@'', [''x'']),
                          Some (''y'', [''x''])], tsize = 3\<rparr>) \<and>
   generate_text lowest ()
     \<lparr>pairs = [Some (''x'', [''y'', ''y'']), Some (''@'', [''x'']), Some (''y'', [''x''])],
      tsize = 3\<rparr> 1 5
     = Some (Inr [''x'', ''y'', ''x'', ''y'', ''x''])"
proof -
  let ?T = "\<lparr>pairs = [Some (''x'', [''y'', ''y'']), Some (''@'', [''x'']), Some (''y'', [''x''])],
             tsize = 3\<rparr>"
  have ok: "randint_ok lowest" by (simp add: randint_ok_def lowest_def)
  have ev: "build_prefix_suffix_table [''x'', ''y'', ''x'', ''y''] 1 3 = Some (Inr ?T)"
    by code_simp
  from generate_example_text[OF _ ok, of 3 "()"] ev
  have "generate_text lowest () ?T 1 5 = Some (Inr [''x'', ''y'', ''x'', ''y'', ''x''])"
    by auto
  with ok ev show ?thesis by simp
qed

text \<open>
  The claim C2 as the specification states it (the four words y x y x) fails: with
  table size 3 and the random source that always draws the lower bound, the text
  generated is x y x y x.
\<close>

theorem generate_example_text_counterexample:
  "build_prefix_suffix_table [''x'', ''y'', ''x'', ''y''] 1 3
     = Some (Inr \<lparr>pairs = [Some (''x'', [''y'', ''y'']), Some (''@'', [''x'']),
                          Some (''y'', [''x''])], tsize = 3\<rparr>) \<and>
   generate_text lowest ()
     \<lparr>pairs = [Some (''x'', [''y'', ''y'']), Some (''@'', [''x'']), Some (''y'', [''x''])],
      tsize = 3\<rparr> 1 5
     = Some (Inr [''x'', ''y'', ''x'', ''y'', ''x'']) \<and>
   generate_text lowest ()
     \<lparr>pairs = [Some (''x'', [''y'', ''y'']), Some (''@'', [''x'']), Some (''y'', [''x''])],
      tsize = 3\<rparr> 1 5
     \<noteq> Some (Inr [''y'', ''x'', ''y'', ''x''])"
proof -
  let ?T = "\<lparr>pairs = [Some (''x'', [''y'', ''y'']), Some (''@'', [''x'']), Some (''y'', [''x''])],
             tsize = 3\<rparr>"
  have ev: "build_prefix_suffix_table [''x'', ''y'', ''x'', ''y''] 1 3 = Some (Inr ?T)"
    by code_simp
  have g: "generate_text lowest () ?T 1 5 = Some (Inr [''x'', ''y'', ''x'', ''y'', ''x''])"
    by code_simp
  show ?thesis unfolding g using ev by simp
qed

end
